theory Spec2Isabelle
  imports Main "HOL-Library.Sublist" "HOL-Library.AList"
begin

section \<open>Python values and operations used by the tool\<close>

text \<open>
  The exceptions that the modelled code can raise. A computation that may raise
  returns a sum, \<open>Inl\<close> being the exception.
\<close>

datatype py_error = OSError | YAMLError | AttributeError | TypeError | KeyError
  | IndexError | ValueError | EOFError | RegexError

text \<open>\<^verbatim>\<open>xs[i]\<close> on a list: a negative index counts from the end.\<close>

definition py_index :: "'a list \<Rightarrow> int \<Rightarrow> py_error + 'a" where
  "py_index xs i =
     (if 0 \<le> i \<and> i < int (length xs) then Inr (xs ! nat i)
      else if - int (length xs) \<le> i \<and> i < 0 then Inr (xs ! nat (i + int (length xs)))
      else Inl IndexError)"

text \<open>\<^verbatim>\<open>s.split(c)\<close> with a one-character separator: never empty, one more segment than
  there are separators.\<close>

fun split_on :: "char \<Rightarrow> string \<Rightarrow> string list" where
  "split_on c [] = [[]]"
| "split_on c (x # xs) =
     (if x = c then [] # split_on c xs
      else (case split_on c xs of [] \<Rightarrow> [[x]] | s # ss \<Rightarrow> (x # s) # ss))"

text \<open>
  The objects \<^verbatim>\<open>yaml.safe_load\<close> builds for a document: \<^verbatim>\<open>None\<close>, booleans, integers,
  floats (kept as their literal, the tool never computes with one), strings, lists and
  dictionaries, a dictionary being the list of its items in order.
\<close>

datatype yaml = YNull | YBool bool | YInt int | YFloat string | YStr string
  | YSeq "yaml list" | YMap "(yaml \<times> yaml) list"

text \<open>
  \<^verbatim>\<open>d.get(key, default)\<close>, \<^verbatim>\<open>d.items()\<close>, \<^verbatim>\<open>key in c\<close>, \<^verbatim>\<open>c[key]\<close> for a string \<open>key\<close>, and
  the iteration \<^verbatim>\<open>for x in c\<close>. Only a dictionary has \<^verbatim>\<open>get\<close> and \<^verbatim>\<open>items\<close>
  (\<^verbatim>\<open>AttributeError\<close> otherwise); membership is by key in a dictionary, by element in a
  list and by substring in a string; subscripting a list or a string with a string is
  a \<^verbatim>\<open>TypeError\<close>; iterating a string yields its characters, a dictionary its keys.
\<close>

definition py_get :: "yaml \<Rightarrow> string \<Rightarrow> yaml \<Rightarrow> py_error + yaml" where
  "py_get d key dflt =
     (case d of
        YMap kvs \<Rightarrow> (case map_of kvs (YStr key) of None \<Rightarrow> Inr dflt | Some v \<Rightarrow> Inr v)
      | _ \<Rightarrow> Inl AttributeError)"

definition py_items :: "yaml \<Rightarrow> py_error + (yaml \<times> yaml) list" where
  "py_items d = (case d of YMap kvs \<Rightarrow> Inr kvs | _ \<Rightarrow> Inl AttributeError)"

definition py_in :: "string \<Rightarrow> yaml \<Rightarrow> py_error + bool" where
  "py_in key c =
     (case c of
        YMap kvs \<Rightarrow> Inr (YStr key \<in> set (map fst kvs))
      | YSeq xs \<Rightarrow> Inr (YStr key \<in> set xs)
      | YStr s \<Rightarrow> Inr (sublist key s)
      | _ \<Rightarrow> Inl TypeError)"

definition py_getitem :: "yaml \<Rightarrow> string \<Rightarrow> py_error + yaml" where
  "py_getitem c key =
     (case c of
        YMap kvs \<Rightarrow> (case map_of kvs (YStr key) of None \<Rightarrow> Inl KeyError | Some v \<Rightarrow> Inr v)
      | _ \<Rightarrow> Inl TypeError)"

definition py_iter :: "yaml \<Rightarrow> py_error + yaml list" where
  "py_iter c =
     (case c of
        YSeq xs \<Rightarrow> Inr xs
      | YStr s \<Rightarrow> Inr (map (\<lambda>ch. YStr [ch]) s)
      | YMap kvs \<Rightarrow> Inr (map fst kvs)
      | _ \<Rightarrow> Inl TypeError)"

text \<open>
  Strings are ASCII text. \<^verbatim>\<open>s.strip()\<close> removes the white space at both ends,
  \<^verbatim>\<open>s.lower()\<close> maps the capital letters to the small ones.
\<close>

definition is_space :: "char \<Rightarrow> bool" where
  "is_space c \<longleftrightarrow> (of_char c :: nat) \<in> {9, 10, 11, 12, 13, 28, 29, 30, 31, 32}"

definition py_strip :: "string \<Rightarrow> string" where
  "py_strip s = rev (dropWhile is_space (rev (dropWhile is_space s)))"

definition lower_char :: "char \<Rightarrow> char" where
  "lower_char c =
     (case map_of (zip ''ABCDEFGHIJKLMNOPQRSTUVWXYZ'' ''abcdefghijklmnopqrstuvwxyz'') c of
        None \<Rightarrow> c
      | Some l \<Rightarrow> l)"

definition py_lower :: "string \<Rightarrow> string" where
  "py_lower s = map lower_char s"

text \<open>
  \<^verbatim>\<open>int(s)\<close> in base ten: white space around the literal, an optional sign, then
  decimal digits, where single underscores may separate digits; anything else is a
  \<^verbatim>\<open>ValueError\<close>.
\<close>

definition is_digit :: "char \<Rightarrow> bool" where
  "is_digit c \<longleftrightarrow> 48 \<le> (of_char c :: nat) \<and> (of_char c :: nat) \<le> 57"

definition digit_value :: "char \<Rightarrow> int" where
  "digit_value c = int (of_char c) - 48"

fun parse_digits :: "bool \<Rightarrow> int \<Rightarrow> string \<Rightarrow> int option" where
  "parse_digits after_digit acc [] = (if after_digit then Some acc else None)"
| "parse_digits after_digit acc (c # cs) =
     (if is_digit c then parse_digits True (acc * 10 + digit_value c) cs
      else if c = CHR ''_'' \<and> after_digit then parse_digits False acc cs
      else None)"

definition py_int :: "string \<Rightarrow> py_error + int" where
  "py_int s =
     (let t = py_strip s;
          r = (case t of
                 [] \<Rightarrow> None
               | c # cs \<Rightarrow>
                   if c = CHR ''-'' then map_option uminus (parse_digits False 0 cs)
                   else if c = CHR ''+'' then parse_digits False 0 cs
                   else parse_digits False 0 t)
      in case r of None \<Rightarrow> Inl ValueError | Some n \<Rightarrow> Inr n)"

text \<open>
  Python dictionaries keep insertion order and the tool prints them in that order, so
  a dictionary is an association list. \<open>compose_ports\<close> maps a file path to the
  dictionary of its services (the names are the keys of the document, of type \<open>'s\<close>),
  each with the list of its declared host-port tokens;
  \<open>running_ports\<close> maps a container name to the list of its bound host ports.
\<close>

type_synonym 's service_ports = "('s \<times> string list) list"
type_synonym 's compose_index = "(string \<times> 's service_ports) list"
type_synonym running_ports = "(string \<times> string list) list"

section \<open>Discovery of the compose files (\<open>find_docker_compose_files\<close>)\<close>

text \<open>
  The directory tree that \<^verbatim>\<open>os.walk\<close> traverses: a directory has the names of its
  files and, in the order in which the walk lists them, the subdirectories that the
  walk enters. A subdirectory that cannot be listed, or that is a symbolic link, gives
  no iteration of the walk and has no entry here.
\<close>

datatype dir = Dir (filenames: "string list") (subdirs: "(string \<times> dir) list")

text \<open>\<^verbatim>\<open>os.sep\<close> and \<^verbatim>\<open>os.path.join\<close> with two arguments, on a POSIX system.\<close>

definition sep :: char where
  "sep = CHR ''/''"

definition path_join :: "string \<Rightarrow> string \<Rightarrow> string" where
  "path_join a b =
     (if b \<noteq> [] \<and> hd b = sep then b
      else if a = [] \<or> last a = sep then a @ b
      else a @ [sep] @ b)"

text \<open>\<^verbatim>\<open>dirpath[len(root_path):].count(os.sep)\<close>\<close>

definition depth_of :: "string \<Rightarrow> string \<Rightarrow> int" where
  "depth_of root_path dirpath = int (count_list (drop (length root_path) dirpath) sep)"

text \<open>
  The regular expression engine is a library and a parameter of the model:
  \<open>re_search pattern s\<close> says whether \<^verbatim>\<open>re.search(pattern, s)\<close> finds a match, or is
  the exception raised for a pattern that is not a regular expression.
\<close>

type_synonym matcher = "string \<Rightarrow> string \<Rightarrow> py_error + bool"

text \<open>
  \<^verbatim>\<open>any(re.search(pattern, dirpath) for pattern in exclude_patterns)\<close>: the patterns are
  tried in order up to the first match.
\<close>

fun excluded :: "matcher \<Rightarrow> string list \<Rightarrow> string \<Rightarrow> py_error + bool" where
  "excluded re_search [] dirpath = Inr False"
| "excluded re_search (pattern # rest) dirpath =
     (case re_search pattern dirpath of
        Inl e \<Rightarrow> Inl e
      | Inr True \<Rightarrow> Inr True
      | Inr False \<Rightarrow> excluded re_search rest dirpath)"

text \<open>
  The loop over \<^verbatim>\<open>os.walk(root_path)\<close>. The walk is top-down: it yields a directory,
  the loop body runs, and the walk then enters the subdirectories still listed in
  \<^verbatim>\<open>dirnames\<close>, which the body empties in two of its three branches. The result has
  one element per iteration of the loop, in order: the \<^verbatim>\<open>dirpath\<close> of the iteration
  and the paths it appends to \<^verbatim>\<open>docker_compose_files\<close>; an exception ends the loop
  and the function.
\<close>

type_synonym walk_log = "(string \<times> string list) list"

fun walk_dir :: "matcher \<Rightarrow> string \<Rightarrow> int \<Rightarrow> string list \<Rightarrow> string \<Rightarrow> dir \<Rightarrow>
                   py_error + walk_log"
and walk_subdirs :: "matcher \<Rightarrow> string \<Rightarrow> int \<Rightarrow> string list \<Rightarrow> string \<Rightarrow>
                   (string \<times> dir) list \<Rightarrow> py_error + walk_log" where
  "walk_dir re_search root_path max_depth pats dirpath (Dir files subs) =
     (if depth_of root_path dirpath < max_depth then
        (case excluded re_search pats dirpath of
           Inl e \<Rightarrow> Inl e
         | Inr True \<Rightarrow> Inr [(dirpath, [])]
         | Inr False \<Rightarrow>
             (case walk_subdirs re_search root_path max_depth pats dirpath subs of
                Inl e \<Rightarrow> Inl e
              | Inr below \<Rightarrow>
                  Inr ((dirpath,
                        if ''docker-compose.yml'' \<in> set files
                        then [path_join dirpath ''docker-compose.yml''] else [])
                       # below)))
      else Inr [(dirpath, [])])"
| "walk_subdirs re_search root_path max_depth pats dirpath [] = Inr []"
| "walk_subdirs re_search root_path max_depth pats dirpath ((name, sub) # rest) =
     (case walk_dir re_search root_path max_depth pats (path_join dirpath name) sub of
        Inl e \<Rightarrow> Inl e
      | Inr first \<Rightarrow>
          (case walk_subdirs re_search root_path max_depth pats dirpath rest of
             Inl e \<Rightarrow> Inl e
           | Inr others \<Rightarrow> Inr (first @ others)))"

text \<open>\<^verbatim>\<open>exclude_patterns = exclude_patterns or []\<close>\<close>

definition or_empty :: "string list option \<Rightarrow> string list" where
  "or_empty exclude_patterns = (case exclude_patterns of None \<Rightarrow> [] | Some ps \<Rightarrow> ps)"

text \<open>
  The function. Its last argument is the tree found at \<open>root_path\<close>, or \<open>None\<close> when
  \<open>root_path\<close> cannot be listed: the walk then has no iteration.
\<close>

definition find_docker_compose_files ::
  "matcher \<Rightarrow> string \<Rightarrow> int \<Rightarrow> string list option \<Rightarrow> dir option \<Rightarrow>
     py_error + string list" where
  "find_docker_compose_files re_search root_path max_depth exclude_patterns tree =
     (case tree of
        None \<Rightarrow> Inr []
      | Some t \<Rightarrow>
          (case walk_dir re_search root_path max_depth (or_empty exclude_patterns)
                  root_path t of
             Inl e \<Rightarrow> Inl e
           | Inr iterations \<Rightarrow> Inr (concat (map snd iterations))))"

text \<open>
  Vocabulary for the properties of the walk: the path the walk computes for the
  directory reached from \<open>d\<close> through the subdirectory names \<open>ns\<close>, the directories of a
  tree with the names leading to them, a property holding at every directory on the
  way, and the directories that the loop scans.
\<close>

fun path_of :: "string \<Rightarrow> string list \<Rightarrow> string" where
  "path_of d [] = d"
| "path_of d (n # ns) = path_of (path_join d n) ns"

inductive sub_at :: "dir \<Rightarrow> string list \<Rightarrow> dir \<Rightarrow> bool" where
  here: "sub_at t [] t"
| below: "(n, s) \<in> set (subdirs t) \<Longrightarrow> sub_at s ns u \<Longrightarrow> sub_at t (n # ns) u"

fun chain_ok :: "(string \<Rightarrow> bool) \<Rightarrow> string \<Rightarrow> string list \<Rightarrow> bool" where
  "chain_ok P d [] = P d"
| "chain_ok P d (n # ns) = (P d \<and> chain_ok P (path_join d n) ns)"

definition scannable :: "matcher \<Rightarrow> string \<Rightarrow> int \<Rightarrow> string list \<Rightarrow> string \<Rightarrow> bool" where
  "scannable re root md pats d \<longleftrightarrow>
     depth_of root d < md \<and> excluded re pats d = Inr False"

text \<open>
  In a file system a name is not empty and holds no separator. For such names the
  path of a directory is the root path followed by the names, one separator before
  each (none before the first when the root path is empty or ends with one).
\<close>

definition wf_name :: "string \<Rightarrow> bool" where
  "wf_name n \<longleftrightarrow> n \<noteq> [] \<and> sep \<notin> set n"

fun wf_dir :: "dir \<Rightarrow> bool" where
  "wf_dir (Dir files subs) \<longleftrightarrow>
     list_all wf_name files \<and> list_all (\<lambda>(name, sub). wf_name name \<and> wf_dir sub) subs"

definition tail_of :: "string list \<Rightarrow> string" where
  "tail_of ns = concat (map (\<lambda>m. sep # m) ns)"

text \<open>
  A matcher for the examples: for a pattern without metacharacters, such as the
  \<^verbatim>\<open>_bk\<close> and \<^verbatim>\<open>_old\<close> of the main program, the search is a substring test.
\<close>

definition literal_search :: matcher where
  "literal_search pattern s = Inr (sublist pattern s)"

section \<open>Extraction of the declared ports (\<open>get_ports_from_docker_compose\<close>)\<close>

text \<open>The enumeration \<^verbatim>\<open>PortIndex\<close> and the \<^verbatim>\<open>.value\<close> of its members.\<close>

datatype PortIndex = HOST | CONTAINER

fun port_index_value :: "PortIndex \<Rightarrow> int" where
  "port_index_value HOST = 0"
| "port_index_value CONTAINER = 1"

text \<open>
  \<^verbatim>\<open>port.split(":")[PortIndex.HOST.value]\<close>: only a string has \<^verbatim>\<open>split\<close>.
\<close>

definition host_token :: "yaml \<Rightarrow> py_error + string" where
  "host_token port =
     (case port of
        YStr s \<Rightarrow> py_index (split_on CHR '':'' s) (port_index_value HOST)
      | _ \<Rightarrow> Inl AttributeError)"

text \<open>The list comprehension over the entries of \<^verbatim>\<open>service_data["ports"]\<close>.\<close>

fun host_tokens :: "yaml list \<Rightarrow> py_error + string list" where
  "host_tokens [] = Inr []"
| "host_tokens (port # rest) =
     (case host_token port of
        Inl e \<Rightarrow> Inl e
      | Inr h \<Rightarrow> (case host_tokens rest of Inl e \<Rightarrow> Inl e | Inr hs \<Rightarrow> Inr (h # hs)))"

text \<open>
  The loop over \<^verbatim>\<open>services.items()\<close>, which fills \<^verbatim>\<open>file_ports\<close>; an assignment to
  a dictionary replaces the value of a key already present and appends a new key.
\<close>

type_synonym file_ports = "yaml service_ports"

fun services_loop :: "(yaml \<times> yaml) list \<Rightarrow> file_ports \<Rightarrow> py_error + file_ports" where
  "services_loop [] file_ports = Inr file_ports"
| "services_loop ((service_name, service_data) # rest) file_ports =
     (case py_in ''ports'' service_data of
        Inl e \<Rightarrow> Inl e
      | Inr False \<Rightarrow> services_loop rest file_ports
      | Inr True \<Rightarrow>
          (case py_getitem service_data ''ports'' of
             Inl e \<Rightarrow> Inl e
           | Inr ports \<Rightarrow>
               (case py_iter ports of
                  Inl e \<Rightarrow> Inl e
                | Inr entries \<Rightarrow>
                    (case host_tokens entries of
                       Inl e \<Rightarrow> Inl e
                     | Inr hosts \<Rightarrow>
                         services_loop rest (AList.update service_name hosts file_ports)))))"

text \<open>
  The body of the \<^verbatim>\<open>try\<close> block up to the test of \<^verbatim>\<open>file_ports\<close>. Opening the file
  and parsing it are the operating system's and the YAML library's: \<open>load file_path\<close>
  is the parsed document or the exception raised, a parameter of the model.
\<close>

definition read_file_ports :: "(string \<Rightarrow> py_error + yaml) \<Rightarrow> string \<Rightarrow> py_error + file_ports" where
  "read_file_ports load file_path =
     (case load file_path of
        Inl e \<Rightarrow> Inl e
      | Inr compose_data \<Rightarrow>
          (case py_get compose_data ''services'' (YMap []) of
             Inl e \<Rightarrow> Inl e
           | Inr services \<Rightarrow>
               (case py_items services of
                  Inl e \<Rightarrow> Inl e
                | Inr items \<Rightarrow> services_loop items [])))"

text \<open>
  The loop over \<^verbatim>\<open>files\<close>. The state is the dictionary \<^verbatim>\<open>ports\<close> and the diagnostics
  printed by the \<^verbatim>\<open>except\<close> branch (the file path and the exception); the function
  returns the dictionary, the diagnostics are kept beside it.
\<close>

type_synonym ports_index = "yaml compose_index"

fun files_loop :: "(string \<Rightarrow> py_error + yaml) \<Rightarrow> string list \<Rightarrow>
     ports_index \<times> (string \<times> py_error) list \<Rightarrow> ports_index \<times> (string \<times> py_error) list" where
  "files_loop load [] acc = acc"
| "files_loop load (file_path # rest) (ports, printed) =
     (case read_file_ports load file_path of
        Inl e \<Rightarrow> files_loop load rest (ports, printed @ [(file_path, e)])
      | Inr file_ports \<Rightarrow>
          files_loop load rest
            (if file_ports \<noteq> [] then AList.update file_path file_ports ports else ports,
             printed))"

definition get_ports_from_docker_compose ::
  "(string \<Rightarrow> py_error + yaml) \<Rightarrow> string list \<Rightarrow> ports_index \<times> (string \<times> py_error) list" where
  "get_ports_from_docker_compose load files = files_loop load files ([], [])"

section \<open>Port reconciliation (\<open>list_ports\<close>, the unused-port section)\<close>

text \<open>\<^verbatim>\<open>[p for c in running_ports.values() for p in c]\<close>\<close>

definition all_running_ports :: "running_ports \<Rightarrow> string list" where
  "all_running_ports running = concat (map snd running)"

text \<open>\<^verbatim>\<open>[port for port in ports if port not in [p for c in ... for p in c]]\<close>\<close>

definition unused_ports :: "running_ports \<Rightarrow> string list \<Rightarrow> string list" where
  "unused_ports running ports =
     filter (\<lambda>port. port \<notin> set (all_running_ports running)) ports"

text \<open>
  The lines printed for one file under the heading of the unused ports: one line per
  service, in the order of the dictionary, printed only \<^verbatim>\<open>if unused_ports:\<close>.
\<close>

fun unused_lines :: "running_ports \<Rightarrow> 's service_ports \<Rightarrow> 's service_ports" where
  "unused_lines running [] = []"
| "unused_lines running ((service, ports) # rest) =
     (let unused = unused_ports running ports
      in if unused \<noteq> [] then (service, unused) # unused_lines running rest
         else unused_lines running rest)"

text \<open>
  The section as a whole: for every file its header line (the file path) followed by
  the lines of its services.
\<close>

definition unused_section :: "'s compose_index \<Rightarrow> running_ports \<Rightarrow> 's compose_index" where
  "unused_section compose_ports running =
     map (\<lambda>(file_path, services). (file_path, unused_lines running services)) compose_ports"

section \<open>The interactive loop (\<open>prompt_user_action\<close>)\<close>

text \<open>
  \<^verbatim>\<open>subprocess.run(argv, check=True)\<close> is the operating system's: \<open>run w argv\<close> gives
  what happens in the state \<open>w\<close> of the world, the exit status of the process or the
  failure to start it (an \<^verbatim>\<open>OSError\<close>, which \<^verbatim>\<open>execute_docker_compose_command\<close> does
  not catch), and the next state. It is a parameter of the model.
\<close>

datatype proc_result = Exit int | Launch_failed

type_synonym 'w runner = "'w \<Rightarrow> string list \<Rightarrow> proc_result \<times> 'w"

text \<open>
  What the loop writes, in order: the numbered list of the files with the two fixed
  options, a prompt at which \<^verbatim>\<open>input\<close> reads a line, the report of a command that
  completed or failed (\<^verbatim>\<open>CalledProcessError\<close>, for a status other than 0), and the two
  messages for an invalid action and an invalid choice.
\<close>

datatype prompt = Choice_prompt | Bulk_action_prompt | Action_prompt

datatype event = Listing "string list" | Ask prompt | Completed string string
  | Failed string string | Invalid_action | Invalid_choice

definition execute_docker_compose_command ::
  "'w runner \<Rightarrow> 'w \<Rightarrow> string \<Rightarrow> string \<Rightarrow> event list \<times> py_error option \<times> 'w" where
  "execute_docker_compose_command run w file_path command =
     (case run w [''docker-compose'', ''-f'', file_path, command] of
        (Exit status, w') \<Rightarrow>
          if status = 0 then ([Completed file_path command], None, w')
          else ([Failed file_path command], None, w')
      | (Launch_failed, w') \<Rightarrow> ([], Some OSError, w'))"

text \<open>\<^verbatim>\<open>for file_path in docker_compose_files: execute_docker_compose_command(file_path, action)\<close>\<close>

fun for_each_file ::
  "'w runner \<Rightarrow> 'w \<Rightarrow> string \<Rightarrow> string list \<Rightarrow> event list \<times> py_error option \<times> 'w" where
  "for_each_file run w action [] = ([], None, w)"
| "for_each_file run w action (file_path # rest) =
     (case execute_docker_compose_command run w file_path action of
        (evs, Some e, w') \<Rightarrow> (evs, Some e, w')
      | (evs, None, w') \<Rightarrow>
          (case for_each_file run w' action rest of
             (evs', r, w'') \<Rightarrow> (evs @ evs', r, w'')))"

text \<open>The output \<open>evs\<close> followed by the rest of a run.\<close>

definition after :: "event list \<Rightarrow> event list \<times> py_error option \<times> 'w \<Rightarrow>
     event list \<times> py_error option \<times> 'w" where
  "after evs res = (case res of (evs', r, w) \<Rightarrow> (evs @ evs', r, w))"

definition actions :: "string list" where
  "actions = [''start'', ''stop'', ''restart'']"

text \<open>
  The \<^verbatim>\<open>while True\<close> loop. The lines that the operator will type are the last argument;
  \<^verbatim>\<open>input\<close> takes the first of them and raises \<^verbatim>\<open>EOFError\<close> when there is none. The
  result is the output, the exception that ended the function (\<open>None\<close> for the
  \<^verbatim>\<open>break\<close>) and the state of the world. Each iteration reads at least one line, so the
  loop ends on every finite input.
\<close>

function prompt_user_action ::
  "'w runner \<Rightarrow> string list \<Rightarrow> 'w \<Rightarrow> string list \<Rightarrow> event list \<times> py_error option \<times> 'w" where
  "prompt_user_action run docker_compose_files w [] =
     ([Listing docker_compose_files, Ask Choice_prompt], Some EOFError, w)"
| "prompt_user_action run docker_compose_files w (line # rest) =
     (let shown = [Listing docker_compose_files, Ask Choice_prompt];
          choice = py_strip line
      in if choice \<in> {''0'', ''''} then (shown, None, w)
         else if py_lower choice = ''a'' then
           (case rest of
              [] \<Rightarrow> (shown @ [Ask Bulk_action_prompt], Some EOFError, w)
            | line2 # rest2 \<Rightarrow>
                (let action = py_lower (py_strip line2)
                 in if action \<in> set actions then
                      (case for_each_file run w action docker_compose_files of
                         (evs, Some e, w') \<Rightarrow>
                           (shown @ [Ask Bulk_action_prompt] @ evs, Some e, w')
                       | (evs, None, w') \<Rightarrow>
                           after (shown @ [Ask Bulk_action_prompt] @ evs)
                             (prompt_user_action run docker_compose_files w' rest2))
                    else after (shown @ [Ask Bulk_action_prompt, Invalid_action])
                           (prompt_user_action run docker_compose_files w rest2)))
         else
           (case py_int choice of
              Inl e \<Rightarrow> after (shown @ [Invalid_choice])
                        (prompt_user_action run docker_compose_files w rest)
            | Inr n \<Rightarrow>
                (case py_index docker_compose_files (n - 1) of
                   Inl e \<Rightarrow> after (shown @ [Invalid_choice])
                             (prompt_user_action run docker_compose_files w rest)
                 | Inr file_path \<Rightarrow>
                     (case rest of
                        [] \<Rightarrow> (shown @ [Ask Action_prompt], Some EOFError, w)
                      | line2 # rest2 \<Rightarrow>
                          (let action = py_lower (py_strip line2)
                           in if action \<in> set actions then
                                (case execute_docker_compose_command run w file_path action of
                                   (evs, Some e, w') \<Rightarrow>
                                     (shown @ [Ask Action_prompt] @ evs, Some e, w')
                                 | (evs, None, w') \<Rightarrow>
                                     after (shown @ [Ask Action_prompt] @ evs)
                                       (prompt_user_action run docker_compose_files w' rest2))
                              else after (shown @ [Ask Action_prompt, Invalid_action])
                                     (prompt_user_action run docker_compose_files w rest2))))))"
  by pat_completeness auto
termination
  by (relation "measure (\<lambda>(run, files, w, inputs). length inputs)") auto


text \<open>The command a report is about.\<close>

fun attempt_of :: "event \<Rightarrow> (string \<times> string) option" where
  "attempt_of (Completed file_path command) = Some (file_path, command)"
| "attempt_of (Failed file_path command) = Some (file_path, command)"
| "attempt_of _ = None"

text \<open>
  A runner for the examples: \<^verbatim>\<open>docker-compose\<close> starts, and exits with status 1 when
  one of the listed files is among its arguments, with status 0 otherwise.
\<close>

definition example_runner :: "string list \<Rightarrow> unit runner" where
  "example_runner failing w argv =
     (Exit (if list_ex (\<lambda>file_path. file_path \<in> set argv) failing then 1 else 0), w)"

text \<open>
  What the runner gives when the command is run for every file in order, each in the
  state the one before left; and the report printed for one result (none for a
  command that could not be started).
\<close>

fun launches :: "'w runner \<Rightarrow> 'w \<Rightarrow> string \<Rightarrow> string list \<Rightarrow> (proc_result \<times> 'w) list" where
  "launches run w action [] = []"
| "launches run w action (file_path # rest) =
     (case run w [''docker-compose'', ''-f'', file_path, action] of
        (r, w') \<Rightarrow> (r, w') # launches run w' action rest)"

fun report :: "string \<Rightarrow> string \<Rightarrow> proc_result \<Rightarrow> event list" where
  "report file_path command (Exit status) =
     [if status = 0 then Completed file_path command else Failed file_path command]"
| "report file_path command Launch_failed = []"

text \<open>
  A second runner for the examples, whose state counts the commands run so far: the
  commands numbered in \<open>no_start\<close> cannot be started, the others exit with status 1
  when one of the files in \<open>failing\<close> is among the arguments, with status 0 otherwise.
\<close>

definition counting_runner :: "string list \<Rightarrow> nat list \<Rightarrow> nat runner" where
  "counting_runner failing no_start w argv =
     (if w \<in> set no_start then Launch_failed
      else Exit (if list_ex (\<lambda>file_path. file_path \<in> set argv) failing then 1 else 0),
      Suc w)"

section \<open>Properties of the discovery\<close>

lemma count_drop_append:
  "count_list (drop n (a @ b)) c \<le> count_list (drop n a) c + count_list b c"
proof -
  have "count_list (drop k b) c \<le> count_list b c" for k
    by (metis append_take_drop_id count_list_append le_add2)
  then show ?thesis by (simp add: add_mono)
qed

lemma depth_of_join_file:
  "depth_of root_path (path_join dirpath ''docker-compose.yml'') \<le> depth_of root_path dirpath + 1"
proof -
  have c: "count_list ''docker-compose.yml'' sep = 0" by (simp add: sep_def)
  have d: "count_list (CHR ''/'' # ''docker-compose.yml'') sep = 1" by (simp add: sep_def)
  show ?thesis
    using count_drop_append [of "length root_path" dirpath "''docker-compose.yml''" sep]
          count_drop_append [of "length root_path" dirpath "CHR ''/'' # ''docker-compose.yml''" sep]
    unfolding c d
    by (auto simp: depth_of_def path_join_def sep_def)
qed

text \<open>The equations of the walk, one per branch of the loop body.\<close>

lemma walk_dir_too_deep:
  "max_depth \<le> depth_of root_path dirpath \<Longrightarrow>
     walk_dir re root_path max_depth pats dirpath t = Inr [(dirpath, [])]"
  by (cases t) simp

lemma walk_dir_excluded:
  "excluded re pats dirpath = Inr True \<Longrightarrow>
     walk_dir re root_path max_depth pats dirpath t = Inr [(dirpath, [])]"
  by (cases t) simp

lemma walk_dir_scanned:
  "depth_of root_path dirpath < max_depth \<Longrightarrow> excluded re pats dirpath = Inr False \<Longrightarrow>
   walk_subdirs re root_path max_depth pats dirpath subs = Inr below \<Longrightarrow>
     walk_dir re root_path max_depth pats dirpath (Dir files subs)
       = Inr ((dirpath, if ''docker-compose.yml'' \<in> set files
                       then [path_join dirpath ''docker-compose.yml''] else []) # below)"
  by simp

lemma walk_dir_cases:
  assumes "walk_dir re root md pats dirpath (Dir files subs) = Inr iterations"
  shows "iterations = [(dirpath, [])]
       \<or> (scannable re root md pats dirpath
          \<and> (\<exists>below. walk_subdirs re root md pats dirpath subs = Inr below
                \<and> iterations = (dirpath, if ''docker-compose.yml'' \<in> set files
                       then [path_join dirpath ''docker-compose.yml''] else []) # below))"
  using assms by (auto simp: scannable_def split: if_splits sum.splits bool.splits)

lemma walk_subdirs_cases:
  assumes "walk_subdirs re root md pats dirpath ((name, sub) # rest) = Inr iterations"
  shows "\<exists>first others. walk_dir re root md pats (path_join dirpath name) sub = Inr first
           \<and> walk_subdirs re root md pats dirpath rest = Inr others
           \<and> iterations = first @ others"
  using assms by (auto split: sum.splits)

lemma excluded_valid:
  "\<forall>pattern \<in> set pats. \<forall>s. \<exists>b. re pattern s = Inr b \<Longrightarrow> \<exists>b. excluded re pats d = Inr b"
proof (induction pats)
  case Nil
  then show ?case by auto
next
  case (Cons pattern rest)
  then obtain b where b: "re pattern d = Inr b" by (meson list.set_intros(1))
  from Cons obtain c where "excluded re rest d = Inr c" by auto
  with b show ?case by (cases b) auto
qed

lemma walk_returns:
  assumes "\<forall>pattern \<in> set pats. \<forall>s. \<exists>b. re pattern s = Inr b"
  shows "\<exists>iterations. walk_dir re root md pats dirpath t = Inr iterations"
    and "\<exists>iterations. walk_subdirs re root md pats dirpath subs = Inr iterations"
  using assms
proof (induction re root md pats dirpath t and re root md pats dirpath subs
       rule: walk_dir_walk_subdirs.induct)
  case (1 re root md pats dirpath files subs)
  from excluded_valid [OF "1.prems"] obtain b where b: "excluded re pats dirpath = Inr b"
    by blast
  show ?case
  proof (cases "depth_of root dirpath < md \<and> \<not> b")
    case True
    with "1.IH" [of b] b "1.prems" obtain below where
      "walk_subdirs re root md pats dirpath subs = Inr below"
      by auto
    with True b show ?thesis by simp
  next
    case False
    with b show ?thesis by (cases b) auto
  qed
next
  case (2 re root md pats dirpath)
  then show ?case by simp
next
  case (3 re root md pats dirpath name sub rest)
  from "3.IH"(1) [OF "3.prems"] obtain first where
    f: "walk_dir re root md pats (path_join dirpath name) sub = Inr first"
    by blast
  from "3.IH"(2) [OF f "3.prems"] obtain others where
    "walk_subdirs re root md pats dirpath rest = Inr others"
    by blast
  with f show ?case by simp
qed

lemma walk_depth:
  "walk_dir re root md pats dirpath t = Inr iterations \<Longrightarrow>
     (d, ps) \<in> set iterations \<Longrightarrow> p \<in> set ps \<Longrightarrow> depth_of root p \<le> md"
  "walk_subdirs re root md pats dirpath subs = Inr iterations \<Longrightarrow>
     (d, ps) \<in> set iterations \<Longrightarrow> p \<in> set ps \<Longrightarrow> depth_of root p \<le> md"
proof (induction re root md pats dirpath t and re root md pats dirpath subs
       arbitrary: iterations d ps p and iterations d ps p
       rule: walk_dir_walk_subdirs.induct)
  case (1 re root md pats dirpath files subs)
  from walk_dir_cases [OF "1.prems"(1)] show ?case
  proof
    assume "iterations = [(dirpath, [])]"
    with "1.prems"(2,3) show ?thesis by simp
  next
    assume "scannable re root md pats dirpath
          \<and> (\<exists>below. walk_subdirs re root md pats dirpath subs = Inr below
                \<and> iterations = (dirpath, if ''docker-compose.yml'' \<in> set files
                       then [path_join dirpath ''docker-compose.yml''] else []) # below)"
    then obtain below where
      sc: "depth_of root dirpath < md" "excluded re pats dirpath = Inr False"
      and w: "walk_subdirs re root md pats dirpath subs = Inr below"
      and i: "iterations = (dirpath, if ''docker-compose.yml'' \<in> set files
                       then [path_join dirpath ''docker-compose.yml''] else []) # below"
      by (auto simp: scannable_def)
    from "1.prems"(2) i have
      "(d, ps) = (dirpath, if ''docker-compose.yml'' \<in> set files
                       then [path_join dirpath ''docker-compose.yml''] else [])
       \<or> (d, ps) \<in> set below"
      by simp
    then show ?thesis
    proof
      assume "(d, ps) = (dirpath, if ''docker-compose.yml'' \<in> set files
                       then [path_join dirpath ''docker-compose.yml''] else [])"
      with "1.prems"(3) have "p = path_join dirpath ''docker-compose.yml''"
        by (auto split: if_splits)
      with sc(1) depth_of_join_file [of root dirpath] show ?thesis by simp
    next
      assume "(d, ps) \<in> set below"
      from "1.IH" [OF sc(1) sc(2) _ w this "1.prems"(3)] show ?thesis by simp
    qed
  qed
next
  case (2 re root md pats dirpath)
  then show ?case by simp
next
  case (3 re root md pats dirpath name sub rest)
  from walk_subdirs_cases [OF "3.prems"(1)] obtain first others where
    f: "walk_dir re root md pats (path_join dirpath name) sub = Inr first"
    and o: "walk_subdirs re root md pats dirpath rest = Inr others"
    and i: "iterations = first @ others"
    by blast
  from "3.prems"(2) i have "(d, ps) \<in> set first \<or> (d, ps) \<in> set others" by simp
  then show ?case
  proof
    assume "(d, ps) \<in> set first"
    from "3.IH"(1) [OF f this "3.prems"(3)] show ?thesis .
  next
    assume "(d, ps) \<in> set others"
    from "3.IH"(2) [OF f o this "3.prems"(3)] show ?thesis .
  qed
qed

lemma chain_ok_prefix:
  "chain_ok P d names \<longleftrightarrow> (\<forall>ns. prefix ns names \<longrightarrow> P (path_of d ns))"
proof (induction names arbitrary: d)
  case Nil
  then show ?case by simp
next
  case (Cons n names)
  show ?case
  proof
    assume a: "chain_ok P d (n # names)"
    show "\<forall>ns. prefix ns (n # names) \<longrightarrow> P (path_of d ns)"
    proof (intro allI impI)
      fix ns assume p: "prefix ns (n # names)"
      show "P (path_of d ns)"
      proof (cases ns)
        case Nil
        then show ?thesis using a by simp
      next
        case (Cons m ms)
        then have "m = n" "prefix ms names" using p by auto
        then show ?thesis using a Cons.IH [of "path_join d n"] Cons by simp
      qed
    qed
  next
    assume a: "\<forall>ns. prefix ns (n # names) \<longrightarrow> P (path_of d ns)"
    have "P (path_of d [])" using a [rule_format, of "[]"] by simp
    moreover have "\<forall>ns. prefix ns names \<longrightarrow> P (path_of (path_join d n) ns)"
    proof (intro allI impI)
      fix ns assume "prefix ns names"
      then have "prefix (n # ns) (n # names)" by simp
      then have "P (path_of d (n # ns))" using a [rule_format, of "n # ns"] by simp
      then show "P (path_of (path_join d n) ns)" by simp
    qed
    ultimately show "chain_ok P d (n # names)"
      using Cons.IH [of "path_join d n"] by simp
  qed
qed

text \<open>
  Where a returned path comes from: the compose file of a directory of the tree, all
  directories on the way to it, itself included, being scanned.
\<close>

lemma walk_provenance:
  "walk_dir re root md pats dirpath t = Inr iterations \<Longrightarrow>
   (d, ps) \<in> set iterations \<Longrightarrow> p \<in> set ps \<Longrightarrow>
     \<exists>names u. sub_at t names u \<and> d = path_of dirpath names
        \<and> ''docker-compose.yml'' \<in> set (filenames u)
        \<and> p = path_join d ''docker-compose.yml''
        \<and> chain_ok (scannable re root md pats) dirpath names"
  "walk_subdirs re root md pats dirpath subs = Inr iterations \<Longrightarrow>
   (d, ps) \<in> set iterations \<Longrightarrow> p \<in> set ps \<Longrightarrow>
     \<exists>n s names u. (n, s) \<in> set subs \<and> sub_at s names u
        \<and> d = path_of (path_join dirpath n) names
        \<and> ''docker-compose.yml'' \<in> set (filenames u)
        \<and> p = path_join d ''docker-compose.yml''
        \<and> chain_ok (scannable re root md pats) (path_join dirpath n) names"
proof (induction re root md pats dirpath t and re root md pats dirpath subs
       arbitrary: iterations d ps p and iterations d ps p
       rule: walk_dir_walk_subdirs.induct)
  case (1 re root md pats dirpath files subs)
  from walk_dir_cases [OF "1.prems"(1)] show ?case
  proof
    assume "iterations = [(dirpath, [])]"
    with "1.prems"(2,3) show ?thesis by simp
  next
    assume "scannable re root md pats dirpath
          \<and> (\<exists>below. walk_subdirs re root md pats dirpath subs = Inr below
                \<and> iterations = (dirpath, if ''docker-compose.yml'' \<in> set files
                       then [path_join dirpath ''docker-compose.yml''] else []) # below)"
    then obtain below where
      sc: "scannable re root md pats dirpath"
      and w: "walk_subdirs re root md pats dirpath subs = Inr below"
      and i: "iterations = (dirpath, if ''docker-compose.yml'' \<in> set files
                       then [path_join dirpath ''docker-compose.yml''] else []) # below"
      by blast
    from "1.prems"(2) i have
      "(d, ps) = (dirpath, if ''docker-compose.yml'' \<in> set files
                       then [path_join dirpath ''docker-compose.yml''] else [])
       \<or> (d, ps) \<in> set below"
      by simp
    then show ?thesis
    proof
      assume "(d, ps) = (dirpath, if ''docker-compose.yml'' \<in> set files
                       then [path_join dirpath ''docker-compose.yml''] else [])"
      with "1.prems"(3) have
        "''docker-compose.yml'' \<in> set files" "p = path_join dirpath ''docker-compose.yml''"
        "d = dirpath"
        by (auto split: if_splits)
      then have "sub_at (Dir files subs) [] (Dir files subs) \<and> d = path_of dirpath []
          \<and> ''docker-compose.yml'' \<in> set (filenames (Dir files subs))
          \<and> p = path_join d ''docker-compose.yml''
          \<and> chain_ok (scannable re root md pats) dirpath []"
        using sc by (simp add: sub_at.here)
      then show ?thesis by blast
    next
      assume b: "(d, ps) \<in> set below"
      from sc have "depth_of root dirpath < md" "excluded re pats dirpath = Inr False"
        by (simp_all add: scannable_def)
      from "1.IH" [OF this _ w b "1.prems"(3)] obtain n s names u where
        h: "(n, s) \<in> set subs" "sub_at s names u" "d = path_of (path_join dirpath n) names"
           "''docker-compose.yml'' \<in> set (filenames u)" "p = path_join d ''docker-compose.yml''"
           "chain_ok (scannable re root md pats) (path_join dirpath n) names"
        by auto
      have "sub_at (Dir files subs) (n # names) u"
        using h(1,2) by (simp add: sub_at.below)
      moreover have "d = path_of dirpath (n # names)" using h(3) by simp
      moreover have "chain_ok (scannable re root md pats) dirpath (n # names)"
        using sc h(6) by simp
      ultimately show ?thesis using h(4,5) by blast
    qed
  qed
next
  case (2 re root md pats dirpath)
  then show ?case by simp
next
  case (3 re root md pats dirpath name sub rest)
  from walk_subdirs_cases [OF "3.prems"(1)] obtain first others where
    f: "walk_dir re root md pats (path_join dirpath name) sub = Inr first"
    and o: "walk_subdirs re root md pats dirpath rest = Inr others"
    and i: "iterations = first @ others"
    by blast
  from "3.prems"(2) i have "(d, ps) \<in> set first \<or> (d, ps) \<in> set others" by simp
  then show ?case
  proof
    assume "(d, ps) \<in> set first"
    from "3.IH"(1) [OF f this "3.prems"(3)] obtain names u where
      h: "sub_at sub names u" "d = path_of (path_join dirpath name) names"
         "''docker-compose.yml'' \<in> set (filenames u)" "p = path_join d ''docker-compose.yml''"
         "chain_ok (scannable re root md pats) (path_join dirpath name) names"
      by blast
    have "(name, sub) \<in> set ((name, sub) # rest)" by simp
    with h show ?thesis by blast
  next
    assume "(d, ps) \<in> set others"
    from "3.IH"(2) [OF f o this "3.prems"(3)] obtain n s names u where
      h: "(n, s) \<in> set rest" "sub_at s names u" "d = path_of (path_join dirpath n) names"
         "''docker-compose.yml'' \<in> set (filenames u)" "p = path_join d ''docker-compose.yml''"
         "chain_ok (scannable re root md pats) (path_join dirpath n) names"
      by blast
    have "(n, s) \<in> set ((name, sub) # rest)" using h(1) by simp
    with h(2-) show ?thesis by blast
  qed
qed

lemma find_cases:
  assumes "find_docker_compose_files re root md xp tree = Inr found"
  shows "(tree = None \<and> found = [])
       \<or> (\<exists>t iterations. tree = Some t
            \<and> walk_dir re root md (or_empty xp) root t = Inr iterations
            \<and> found = concat (map snd iterations))"
  using assms
  by (auto simp: find_docker_compose_files_def split: option.splits sum.splits)

lemma find_provenance:
  assumes "find_docker_compose_files re root md xp tree = Inr found" and "p \<in> set found"
  shows "\<exists>t names u. tree = Some t \<and> sub_at t names u
        \<and> ''docker-compose.yml'' \<in> set (filenames u)
        \<and> p = path_join (path_of root names) ''docker-compose.yml''
        \<and> chain_ok (scannable re root md (or_empty xp)) root names"
proof -
  from find_cases [OF assms(1)] assms(2) obtain t iterations where
    t: "tree = Some t" "walk_dir re root md (or_empty xp) root t = Inr iterations"
       "found = concat (map snd iterations)"
    by auto
  with assms(2) obtain d ps where "(d, ps) \<in> set iterations" "p \<in> set ps"
    by auto
  from walk_provenance(1) [OF t(2) this] t(1) show ?thesis by blast
qed

lemma find_returns:
  assumes "\<forall>pattern \<in> set (or_empty xp). \<forall>s. \<exists>b. re pattern s = Inr b"
  shows "\<exists>found. find_docker_compose_files re root md xp tree = Inr found"
proof (cases tree)
  case None
  then show ?thesis by (simp add: find_docker_compose_files_def)
next
  case (Some t)
  from walk_returns(1) [OF assms, of root md root t] obtain iterations where
    "walk_dir re root md (or_empty xp) root t = Inr iterations"
    by blast
  with Some show ?thesis by (simp add: find_docker_compose_files_def)
qed

text \<open>
  Claim C6. Whatever the tree, the root path, the maximal depth and the exclusion
  patterns, every returned path has depth at most \<open>max_depth\<close>, the depth being the
  number of separators in the path after the root prefix, as the scan counts it. The
  scan returns whenever every pattern is a regular expression.
\<close>

theorem scan_depth_bound:
  "(\<forall>found. find_docker_compose_files re root_path max_depth exclude_patterns tree = Inr found
      \<longrightarrow> (\<forall>p \<in> set found. depth_of root_path p \<le> max_depth))
   \<and> ((\<forall>pattern \<in> set (or_empty exclude_patterns). \<forall>s. \<exists>b. re pattern s = Inr b) \<longrightarrow>
        (\<exists>found. find_docker_compose_files re root_path max_depth exclude_patterns tree
           = Inr found))"
proof (intro conjI allI impI ballI)
  fix found p
  assume f: "find_docker_compose_files re root_path max_depth exclude_patterns tree = Inr found"
    and p: "p \<in> set found"
  from find_cases [OF f] p obtain t iterations where
    t: "walk_dir re root_path max_depth (or_empty exclude_patterns) root_path t = Inr iterations"
       "found = concat (map snd iterations)"
    by auto
  with p obtain d ps where "(d, ps) \<in> set iterations" "p \<in> set ps"
    by auto
  from walk_depth(1) [OF t(1) this] show "depth_of root_path p \<le> max_depth" .
next
  assume "\<forall>pattern \<in> set (or_empty exclude_patterns). \<forall>s. \<exists>b. re pattern s = Inr b"
  then show "\<exists>found. find_docker_compose_files re root_path max_depth exclude_patterns tree
           = Inr found"
    by (rule find_returns)
qed


lemmas walk_eval = find_docker_compose_files_def or_empty_def depth_of_def sep_def
  path_join_def literal_search_def sublist_code(3)

theorem scan_depth_bound_witness:
  "find_docker_compose_files literal_search ''r'' 2 (Some [''_bk''])
     (Some (Dir [''docker-compose.yml'']
        [(''a'', Dir [''docker-compose.yml''] [(''b'', Dir [''docker-compose.yml''] [])])]))
     = Inr [''r/docker-compose.yml'', ''r/a/docker-compose.yml'']
   \<and> depth_of ''r'' ''r/docker-compose.yml'' \<le> 2
   \<and> depth_of ''r'' ''r/a/docker-compose.yml'' \<le> 2"
proof -
  let ?tree = "Some (Dir [''docker-compose.yml'']
        [(''a'', Dir [''docker-compose.yml''] [(''b'', Dir [''docker-compose.yml''] [])])])"
  have v: "\<forall>pattern \<in> set (or_empty (Some [''_bk''])). \<forall>s. \<exists>b. literal_search pattern s = Inr b"
    by (simp add: literal_search_def)
  have r: "find_docker_compose_files literal_search ''r'' 2 (Some [''_bk'']) ?tree
     = Inr [''r/docker-compose.yml'', ''r/a/docker-compose.yml'']"
    by (simp add: walk_eval)
  note inst = scan_depth_bound [of literal_search "''r''" 2 "Some [''_bk'']" ?tree]
  from inst v have "\<exists>found. find_docker_compose_files literal_search ''r'' 2 (Some [''_bk''])
      ?tree = Inr found"
    by blast
  from inst r have "\<forall>p \<in> set [''r/docker-compose.yml'', ''r/a/docker-compose.yml''].
      depth_of ''r'' p \<le> 2"
    by blast
  with r show ?thesis by simp
qed

text \<open>
  The paths of the walk are injective on well-formed names, so a path below an
  excluded directory cannot be returned on behalf of another directory.
\<close>

lemma path_join_wf:
  "wf_name n \<Longrightarrow>
     path_join d n = (if d = [] \<or> last d = sep then d else d @ [sep]) @ n"
  by (cases n) (auto simp: path_join_def wf_name_def)

lemma path_join_wf_last:
  "wf_name n \<Longrightarrow> path_join d n \<noteq> [] \<and> last (path_join d n) \<noteq> sep"
proof -
  assume w: "wf_name n"
  then have ne: "n \<noteq> []" and ns: "sep \<notin> set n"
    by (simp_all add: wf_name_def)
  from last_in_set [OF ne] ns have "last n \<noteq> sep"
    by metis
  with ne have "n \<noteq> []" "last n \<noteq> sep"
    by simp_all
  then show ?thesis
    by (simp add: path_join_wf [OF w])
qed

lemma takeWhile_until: "c \<notin> set a \<Longrightarrow> takeWhile (\<lambda>x. x \<noteq> c) (a @ c # r) = a"
  by (induction a) auto

lemma path_of_wf:
  "wf_name n \<Longrightarrow> list_all wf_name ns \<Longrightarrow>
     path_of d (n # ns) = path_join d n @ tail_of ns"
proof (induction ns arbitrary: d n)
  case Nil
  then show ?case by (simp add: tail_of_def)
next
  case (Cons m ms)
  from Cons.prems have m: "wf_name m" "list_all wf_name ms" by simp_all
  have "path_of d (n # m # ms) = path_of (path_join d n) (m # ms)" by simp
  also have "\<dots> = path_join (path_join d n) m @ tail_of ms"
    using Cons.IH [OF m] .
  also have "path_join (path_join d n) m = path_join d n @ sep # m"
    using path_join_wf [OF m(1), of "path_join d n"] path_join_wf_last [OF Cons.prems(1), of d]
    by simp
  finally show ?case by (simp add: tail_of_def)
qed

lemma path_of_snoc: "path_of d (ns @ [f]) = path_join (path_of d ns) f"
  by (induction ns arbitrary: d) simp_all

lemma segments_inject:
  assumes "sep \<notin> set a" "sep \<notin> set b" "list_all wf_name as" "list_all wf_name bs"
    and "a @ tail_of as = b @ tail_of bs"
  shows "a = b \<and> as = bs"
  using assms
proof (induction as arbitrary: a b bs)
  case Nil
  show ?case
  proof (cases bs)
    case Nil
    with Nil.prems show ?thesis by (simp add: tail_of_def)
  next
    case (Cons m ms)
    with Nil.prems have "a = b @ sep # m @ tail_of ms" by (simp add: tail_of_def)
    with Nil.prems(1) show ?thesis by auto
  qed
next
  case (Cons m ms)
  show ?case
  proof (cases bs)
    case Nil
    with Cons.prems have "b = a @ sep # m @ tail_of ms" by (simp add: tail_of_def)
    with Cons.prems(2) show ?thesis by auto
  next
    case (Cons m' ms')
    with Cons.prems have e: "a @ sep # (m @ tail_of ms) = b @ sep # (m' @ tail_of ms')"
      by (simp add: tail_of_def)
    have "takeWhile (\<lambda>c. c \<noteq> sep) (a @ sep # (m @ tail_of ms)) = a"
      using Cons.prems(1) by (rule takeWhile_until)
    moreover have "takeWhile (\<lambda>c. c \<noteq> sep) (b @ sep # (m' @ tail_of ms')) = b"
      using Cons.prems(2) by (rule takeWhile_until)
    ultimately have ab: "a = b" using e by simp
    with e have r: "m @ tail_of ms = m' @ tail_of ms'" by simp
    from Cons.prems(3,4) Cons have "wf_name m" "wf_name m'"
      and l: "list_all wf_name ms" "list_all wf_name ms'"
      by simp_all
    then have "sep \<notin> set m" "sep \<notin> set m'"
      by (simp_all add: wf_name_def)
    note this l
    from Cons.IH [OF this r] ab Cons show ?thesis by simp
  qed
qed

lemma path_of_inject:
  assumes "list_all wf_name (a # as)" "list_all wf_name (b # bs)"
    and "path_of root (a # as) = path_of root (b # bs)"
  shows "a # as = b # bs"
proof -
  from assms(1,2) have w: "wf_name a" "list_all wf_name as" "wf_name b" "list_all wf_name bs"
    by simp_all
  let ?P = "if root = [] \<or> last root = sep then root else root @ [sep]"
  from assms(3) have "?P @ a @ tail_of as = ?P @ b @ tail_of bs"
    unfolding path_of_wf [OF w(1,2)] path_of_wf [OF w(3,4)]
      path_join_wf [OF w(1)] path_join_wf [OF w(3)]
    by simp
  then have "a @ tail_of as = b @ tail_of bs" by simp
  from segments_inject [OF _ _ w(2) w(4) this] w(1,3) show ?thesis
    by (simp add: wf_name_def)
qed

lemma sub_at_wf:
  "sub_at t names u \<Longrightarrow> wf_dir t \<Longrightarrow> list_all wf_name names \<and> wf_dir u"
proof (induction rule: sub_at.induct)
  case (here t)
  then show ?case by simp
next
  case (below n s t ns u)
  from below.hyps(1) below.prems have "wf_name n \<and> wf_dir s"
    by (cases t) (auto simp: list_all_iff)
  with below.IH show ?case by simp
qed

lemma sub_at_append: "sub_at t ns u \<Longrightarrow> sub_at u ms v \<Longrightarrow> sub_at t (ns @ ms) v"
  by (induction rule: sub_at.induct) (auto intro: sub_at.intros)

lemma excluded_paths_absent:
  assumes wf: "wf_dir tree"
    and d: "sub_at tree names d"
    and x: "excluded re (or_empty xp) (path_of root names) = Inr True"
    and e: "sub_at d more e"
    and f: "fname \<in> set (filenames e)"
    and r: "find_docker_compose_files re root md xp (Some tree) = Inr found"
  shows "path_join (path_of root (names @ more)) fname \<notin> set found"
proof
  assume "path_join (path_of root (names @ more)) fname \<in> set found"
  from find_provenance [OF r this] obtain names' u where
    h: "sub_at tree names' u"
       "path_join (path_of root (names @ more)) fname
          = path_join (path_of root names') ''docker-compose.yml''"
       "chain_ok (scannable re root md (or_empty xp)) root names'"
    by auto
  from sub_at_wf [OF sub_at_append [OF d e] wf] have w1: "list_all wf_name (names @ more)"
    and we: "wf_dir e"
    by simp_all
  from we f have wfn: "wf_name fname"
    by (cases e) (auto simp: list_all_iff)
  from sub_at_wf [OF h(1) wf] have w2: "list_all wf_name names'" by simp
  have wd: "wf_name ''docker-compose.yml''" by (simp add: wf_name_def sep_def)
  from h(2) have "path_of root ((names @ more) @ [fname])
      = path_of root (names' @ [''docker-compose.yml''])"
    by (simp only: path_of_snoc)
  moreover obtain a as where a: "(names @ more) @ [fname] = a # as"
    by (cases "(names @ more) @ [fname]") auto
  moreover obtain b bs where b: "names' @ [''docker-compose.yml''] = b # bs"
    by (cases "names' @ [''docker-compose.yml'']") auto
  moreover have "list_all wf_name (a # as)" using w1 wfn a [symmetric] by simp
  moreover have "list_all wf_name (b # bs)" using w2 wd b [symmetric] by simp
  ultimately have "a # as = b # bs"
    using path_of_inject [of a as b bs root] by simp
  with a b have "(names @ more) @ [fname] = names' @ [''docker-compose.yml'']" by simp
  then have "names @ more = names'" by simp
  then have "prefix names names'" by auto
  with h(3) have "scannable re root md (or_empty xp) (path_of root names)"
    by (simp add: chain_ok_prefix)
  with x show False by (simp add: scannable_def)
qed

text \<open>
  Claim C7. The walk of a directory whose path is matched by an exclusion pattern has
  that one iteration only, which appends nothing: neither its own compose file nor
  anything below it is returned, and nothing below it is visited. Seen from the result:
  every returned path is the compose file of a directory of the tree such that no
  exclusion pattern matches the path of that directory or of any directory above it,
  the root included; and in a tree of well-formed names, no path of a file in a
  matched directory or below it is among the returned paths.
\<close>

theorem excluded_subtree_not_scanned:
  "(excluded re pats dirpath = Inr True \<longrightarrow>
      walk_dir re root_path max_depth pats dirpath t = Inr [(dirpath, [])])
   \<and> (find_docker_compose_files re root_path max_depth exclude_patterns tree = Inr found
        \<and> p \<in> set found \<longrightarrow>
        (\<exists>top names u. tree = Some top \<and> sub_at top names u
           \<and> ''docker-compose.yml'' \<in> set (filenames u)
           \<and> p = path_join (path_of root_path names) ''docker-compose.yml''
           \<and> (\<forall>ns. prefix ns names \<longrightarrow>
                 excluded re (or_empty exclude_patterns) (path_of root_path ns) = Inr False)))
   \<and> (find_docker_compose_files re root_path max_depth exclude_patterns (Some whole) = Inr found
        \<and> wf_dir whole \<and> sub_at whole names d
        \<and> excluded re (or_empty exclude_patterns) (path_of root_path names) = Inr True
        \<and> sub_at d more e \<and> fname \<in> set (filenames e) \<longrightarrow>
        path_join (path_of root_path (names @ more)) fname \<notin> set found)"
proof (intro conjI impI)
  assume "excluded re pats dirpath = Inr True"
  then show "walk_dir re root_path max_depth pats dirpath t = Inr [(dirpath, [])]"
    by (rule walk_dir_excluded)
next
  assume "find_docker_compose_files re root_path max_depth exclude_patterns tree = Inr found
        \<and> p \<in> set found"
  then have "find_docker_compose_files re root_path max_depth exclude_patterns tree = Inr found"
    and "p \<in> set found"
    by simp_all
  from find_provenance [OF this] obtain top names u where
    h: "tree = Some top" "sub_at top names u" "''docker-compose.yml'' \<in> set (filenames u)"
       "p = path_join (path_of root_path names) ''docker-compose.yml''"
       "chain_ok (scannable re root_path max_depth (or_empty exclude_patterns)) root_path names"
    by blast
  from h(5) have "\<forall>ns. prefix ns names \<longrightarrow>
        excluded re (or_empty exclude_patterns) (path_of root_path ns) = Inr False"
    by (simp add: chain_ok_prefix scannable_def)
  with h(1-4) show "\<exists>top names u. tree = Some top \<and> sub_at top names u
           \<and> ''docker-compose.yml'' \<in> set (filenames u)
           \<and> p = path_join (path_of root_path names) ''docker-compose.yml''
           \<and> (\<forall>ns. prefix ns names \<longrightarrow>
                 excluded re (or_empty exclude_patterns) (path_of root_path ns) = Inr False)"
    by blast
next
  assume a: "find_docker_compose_files re root_path max_depth exclude_patterns (Some whole)
          = Inr found
        \<and> wf_dir whole \<and> sub_at whole names d
        \<and> excluded re (or_empty exclude_patterns) (path_of root_path names) = Inr True
        \<and> sub_at d more e \<and> fname \<in> set (filenames e)"
  show "path_join (path_of root_path (names @ more)) fname \<notin> set found"
    by (rule excluded_paths_absent [of whole names d re exclude_patterns root_path more e fname
          max_depth found]) (simp_all add: a)
qed

theorem excluded_subtree_not_scanned_witness:
  "excluded literal_search [''_bk''] ''r/x_bk'' = Inr True
   \<and> walk_dir literal_search ''r'' 4 [''_bk''] ''r/x_bk''
        (Dir [''docker-compose.yml''] [(''y'', Dir [''docker-compose.yml''] [])])
       = Inr [(''r/x_bk'', [])]
   \<and> find_docker_compose_files literal_search ''r'' 4 (Some [''_bk''])
        (Some (Dir [''docker-compose.yml'']
          [(''x_bk'', Dir [''docker-compose.yml''] [(''y'', Dir [''docker-compose.yml''] [])]),
           (''z'', Dir [''docker-compose.yml''] [])]))
       = Inr [''r/docker-compose.yml'', ''r/z/docker-compose.yml'']
   \<and> (\<exists>names. ''r/z/docker-compose.yml''
          = path_join (path_of ''r'' names) ''docker-compose.yml''
        \<and> (\<forall>ns. prefix ns names \<longrightarrow>
              excluded literal_search [''_bk''] (path_of ''r'' ns) = Inr False))
   \<and> path_join (path_of ''r'' ([''x_bk''] @ [''y''])) ''docker-compose.yml''
       = ''r/x_bk/y/docker-compose.yml''
   \<and> ''r/x_bk/y/docker-compose.yml''
       \<notin> set [''r/docker-compose.yml'', ''r/z/docker-compose.yml'']"
proof -
  let ?y = "Dir [''docker-compose.yml''] []"
  let ?sub = "Dir [''docker-compose.yml''] [(''y'', ?y)]"
  let ?whole = "Dir [''docker-compose.yml'']
          [(''x_bk'', ?sub), (''z'', Dir [''docker-compose.yml''] [])]"
  let ?found = "[''r/docker-compose.yml'', ''r/z/docker-compose.yml'']"
  have e: "excluded literal_search [''_bk''] ''r/x_bk'' = Inr True"
    by (simp add: walk_eval)
  have r: "find_docker_compose_files literal_search ''r'' 4 (Some [''_bk'']) (Some ?whole)
       = Inr ?found"
    by (simp add: walk_eval)
  have m: "''r/z/docker-compose.yml'' \<in> set ?found"
    by simp
  have o: "or_empty (Some [''_bk'']) = [''_bk'']"
    by (simp add: or_empty_def)
  have wf: "wf_dir ?whole"
    by (simp add: wf_name_def sep_def)
  have s1: "sub_at ?whole [''x_bk''] ?sub"
    by (rule sub_at.below [OF _ sub_at.here]) simp
  have s2: "sub_at ?sub [''y''] ?y"
    by (rule sub_at.below [OF _ sub_at.here]) simp
  have f: "''docker-compose.yml'' \<in> set (filenames ?y)"
    by simp
  have p1: "path_of ''r'' [''x_bk''] = ''r/x_bk''"
    by (simp add: path_join_def sep_def)
  have p2: "path_join (path_of ''r'' ([''x_bk''] @ [''y''])) ''docker-compose.yml''
       = ''r/x_bk/y/docker-compose.yml''"
    by (simp add: path_join_def sep_def)
  note inst = excluded_subtree_not_scanned
    [where re = literal_search and pats = "[''_bk'']" and dirpath = "''r/x_bk''"
       and root_path = "''r''" and max_depth = 4 and t = ?sub
       and exclude_patterns = "Some [''_bk'']" and tree = "Some ?whole" and found = ?found
       and p = "''r/z/docker-compose.yml''" and whole = ?whole and names = "[''x_bk'']"
       and d = ?sub and more = "[''y'']" and e = ?y and fname = "''docker-compose.yml''"]
  from inst e have w: "walk_dir literal_search ''r'' 4 [''_bk''] ''r/x_bk'' ?sub
      = Inr [(''r/x_bk'', [])]"
    by blast
  from inst r m have v: "\<exists>names. ''r/z/docker-compose.yml''
          = path_join (path_of ''r'' names) ''docker-compose.yml''
        \<and> (\<forall>ns. prefix ns names \<longrightarrow>
              excluded literal_search [''_bk''] (path_of ''r'' ns) = Inr False)"
    unfolding o by blast
  from e have e': "excluded literal_search (or_empty (Some [''_bk''])) (path_of ''r'' [''x_bk''])
      = Inr True"
    unfolding o p1 .
  from inst r wf s1 e' s2 f have
    "path_join (path_of ''r'' ([''x_bk''] @ [''y''])) ''docker-compose.yml'' \<notin> set ?found"
    by blast
  then have n: "''r/x_bk/y/docker-compose.yml'' \<notin> set ?found"
    unfolding p2 .
  from e w r v p2 n show ?thesis
    by (intro conjI)
qed

text \<open>
  Claim C2, as stated, fails. With \<open>max_depth = 1\<close> the directory \<open>r/a\<close> has depth
  exactly \<open>max_depth\<close> and holds a file named \<open>docker-compose.yml\<close>; the walk visits it
  and returns nothing for it.
\<close>

theorem max_depth_dir_scanned_counterexample:
  "depth_of ''r'' (path_join ''r'' ''a'') = 1
   \<and> ''docker-compose.yml'' \<in> set (filenames (Dir [''docker-compose.yml''] []))
   \<and> walk_dir literal_search ''r'' 1 [] ''r''
        (Dir [] [(''a'', Dir [''docker-compose.yml''] [])])
       = Inr [(''r'', []), (''r/a'', [])]
   \<and> find_docker_compose_files literal_search ''r'' 1 None
        (Some (Dir [] [(''a'', Dir [''docker-compose.yml''] [])])) = Inr []"
  by (simp add: walk_eval)

text \<open>
  Claim C2, amended. A directory whose depth is \<open>max_depth\<close> (or more) is visited by
  the walk but not scanned: it contributes no path and its children are not descended
  into. A directory of smaller depth that no exclusion pattern matches is scanned for
  a file literally named \<open>docker-compose.yml\<close> and its children are walked; and every
  returned path is the compose file of a directory of depth below \<open>max_depth\<close>.
\<close>

theorem max_depth_dir_not_scanned:
  "(max_depth \<le> depth_of root_path dirpath \<longrightarrow>
      walk_dir re root_path max_depth pats dirpath t = Inr [(dirpath, [])])
   \<and> (depth_of root_path dirpath < max_depth \<and> excluded re pats dirpath = Inr False
        \<and> walk_subdirs re root_path max_depth pats dirpath subs = Inr below \<longrightarrow>
        walk_dir re root_path max_depth pats dirpath (Dir files subs)
          = Inr ((dirpath, if ''docker-compose.yml'' \<in> set files
                          then [path_join dirpath ''docker-compose.yml''] else [])
                 # below))
   \<and> (find_docker_compose_files re root_path max_depth exclude_patterns tree = Inr found
        \<and> p \<in> set found \<longrightarrow>
        (\<exists>top names u. tree = Some top \<and> sub_at top names u
           \<and> ''docker-compose.yml'' \<in> set (filenames u)
           \<and> p = path_join (path_of root_path names) ''docker-compose.yml''
           \<and> depth_of root_path (path_of root_path names) < max_depth))"
proof (intro conjI impI)
  assume "max_depth \<le> depth_of root_path dirpath"
  then show "walk_dir re root_path max_depth pats dirpath t = Inr [(dirpath, [])]"
    by (rule walk_dir_too_deep)
next
  assume "depth_of root_path dirpath < max_depth \<and> excluded re pats dirpath = Inr False
        \<and> walk_subdirs re root_path max_depth pats dirpath subs = Inr below"
  then show "walk_dir re root_path max_depth pats dirpath (Dir files subs)
          = Inr ((dirpath, if ''docker-compose.yml'' \<in> set files
                          then [path_join dirpath ''docker-compose.yml''] else [])
                 # below)"
    by simp
next
  assume "find_docker_compose_files re root_path max_depth exclude_patterns tree = Inr found
        \<and> p \<in> set found"
  then have "find_docker_compose_files re root_path max_depth exclude_patterns tree = Inr found"
    and "p \<in> set found"
    by simp_all
  from find_provenance [OF this] obtain top names u where
    h: "tree = Some top" "sub_at top names u" "''docker-compose.yml'' \<in> set (filenames u)"
       "p = path_join (path_of root_path names) ''docker-compose.yml''"
       "chain_ok (scannable re root_path max_depth (or_empty exclude_patterns)) root_path names"
    by blast
  from h(5) have "depth_of root_path (path_of root_path names) < max_depth"
    using chain_ok_prefix [of "scannable re root_path max_depth (or_empty exclude_patterns)"
        root_path names]
    by (simp add: scannable_def)
  with h(1-4) show "\<exists>top names u. tree = Some top \<and> sub_at top names u
           \<and> ''docker-compose.yml'' \<in> set (filenames u)
           \<and> p = path_join (path_of root_path names) ''docker-compose.yml''
           \<and> depth_of root_path (path_of root_path names) < max_depth"
    by blast
qed

theorem max_depth_dir_not_scanned_witness:
  "depth_of ''r'' ''r/a'' = 1
   \<and> walk_dir literal_search ''r'' 1 [] ''r/a'' (Dir [''docker-compose.yml''] [])
       = Inr [(''r/a'', [])]
   \<and> walk_dir literal_search ''r'' 1 [] ''r''
        (Dir [''docker-compose.yml''] [(''a'', Dir [''docker-compose.yml''] [])])
       = Inr [(''r'', [''r/docker-compose.yml'']), (''r/a'', [])]
   \<and> (\<exists>names. ''r/docker-compose.yml''
          = path_join (path_of ''r'' names) ''docker-compose.yml''
        \<and> depth_of ''r'' (path_of ''r'' names) < 1)"
proof -
  let ?subs = "[(''a'', Dir [''docker-compose.yml''] [])]"
  let ?tree = "Dir [''docker-compose.yml''] ?subs"
  have d: "(1::int) \<le> depth_of ''r'' ''r/a''" "depth_of ''r'' ''r'' < 1"
    and d1: "depth_of ''r'' ''r/a'' = 1"
    by (simp_all add: depth_of_def sep_def)
  have x: "excluded literal_search [] ''r'' = Inr False"
    by simp
  have s: "walk_subdirs literal_search ''r'' 1 [] ''r'' ?subs = Inr [(''r/a'', [])]"
    by (simp add: walk_eval)
  have j: "path_join ''r'' ''docker-compose.yml'' = ''r/docker-compose.yml''"
    by (simp add: path_join_def sep_def)
  have f: "find_docker_compose_files literal_search ''r'' 1 None (Some ?tree)
       = Inr [''r/docker-compose.yml'']"
    by (simp add: walk_eval)
  note a = max_depth_dir_not_scanned
    [of 1 "''r''" "''r/a''" literal_search "[]" "Dir [''docker-compose.yml''] []"]
  note b = max_depth_dir_not_scanned
    [of 1 "''r''" "''r''" literal_search "[]" _ ?subs "[(''r/a'', [])]"
        "[''docker-compose.yml'']" None "Some ?tree" "[''r/docker-compose.yml'']"
        "''r/docker-compose.yml''"]
  from a d(1) have w1: "walk_dir literal_search ''r'' 1 [] ''r/a''
       (Dir [''docker-compose.yml''] []) = Inr [(''r/a'', [])]"
    by blast
  from b d(2) x s j have w2: "walk_dir literal_search ''r'' 1 [] ''r'' ?tree
       = Inr [(''r'', [''r/docker-compose.yml'']), (''r/a'', [])]"
    by simp
  from b f have "\<exists>names. ''r/docker-compose.yml''
          = path_join (path_of ''r'' names) ''docker-compose.yml''
        \<and> depth_of ''r'' (path_of ''r'' names) < 1"
    by auto
  with d1 w1 w2 show ?thesis
    by (intro conjI)
qed

section \<open>Properties of the extraction\<close>

lemma split_on_nonempty: "split_on c s \<noteq> []"
  by (induction s) (auto split: list.splits)

lemma split_on_no_sep: "c \<notin> set s \<Longrightarrow> split_on c s = [s]"
  by (induction s) auto

lemma split_on_first: "c \<notin> set h \<Longrightarrow> split_on c (h @ c # rest) = h # split_on c rest"
  by (induction h) auto

lemma host_token_first_segment:
  "CHR '':'' \<notin> set h \<Longrightarrow> host_token (YStr (h @ CHR '':'' # rest)) = Inr h"
  by (simp add: host_token_def split_on_first py_index_def)

lemma host_token_bare: "CHR '':'' \<notin> set h \<Longrightarrow> host_token (YStr h) = Inr h"
  by (simp add: host_token_def split_on_no_sep py_index_def)

text \<open>
  Claim C3. The extraction keeps the first colon-delimited segment of a token
  (\<open>host_token_first_segment\<close>, \<open>host_token_bare\<close>): the host port of
  \<open>HOST:CONTAINER\<close> and \<open>HOST:CONTAINER/proto\<close>, the whole of a bare port. For a token
  with a bind address, \<open>IP:HOST:CONTAINER\<close>, the first segment is the address, not the
  host port: the member \<^verbatim>\<open>HOST = 0\<close> of \<^verbatim>\<open>PortIndex\<close>, documented as the host-side
  port, then indexes the address.
\<close>

theorem host_token_bind_address:
  "host_token (YStr ''127.0.0.1:8080:80'') = Inr ''127.0.0.1''
   \<and> host_token (YStr ''127.0.0.1:8080:80'') \<noteq> Inr ''8080''
   \<and> host_token (YStr ''8080:80'') = Inr ''8080''
   \<and> host_token (YStr ''8080:80/tcp'') = Inr ''8080''
   \<and> host_token (YStr ''8080'') = Inr ''8080''"
  by (simp add: host_token_def py_index_def)

lemma set_update_subset: "set (AList.update k v al) \<subseteq> insert (k, v) (set al)"
  by (induction al) auto

lemma files_loop_entries:
  assumes "\<forall>(f, fp) \<in> set ports. f \<in> S \<and> read_file_ports load f = Inr fp \<and> fp \<noteq> []"
  shows "\<forall>(f, fp) \<in> set (fst (files_loop load files (ports, printed))).
           f \<in> S \<union> set files \<and> read_file_ports load f = Inr fp \<and> fp \<noteq> []"
  using assms
proof (induction files arbitrary: ports printed S)
  case Nil
  then show ?case by simp
next
  case (Cons file_path rest)
  show ?case
  proof (cases "read_file_ports load file_path")
    case (Inl e)
    have "\<forall>(f, fp) \<in> set ports.
            f \<in> insert file_path S \<and> read_file_ports load f = Inr fp \<and> fp \<noteq> []"
      using Cons.prems by auto
    from Cons.IH [OF this, of "printed @ [(file_path, e)]"] show ?thesis
      using Inl by simp
  next
    case (Inr file_ports)
    let ?ports = "if file_ports \<noteq> [] then AList.update file_path file_ports ports else ports"
    have "\<forall>(f, fp) \<in> set ?ports.
            f \<in> insert file_path S \<and> read_file_ports load f = Inr fp \<and> fp \<noteq> []"
      using Cons.prems Inr set_update_subset [of file_path file_ports ports] by auto
    from Cons.IH [OF this, of printed] show ?thesis
      using Inr by simp
  qed
qed

text \<open>
  Claim C10. If processing a file raises (the file cannot be read or parsed, or an
  operation on the document fails, as \<^verbatim>\<open>split\<close> does on an entry that is not a string),
  the file has no entry in the returned index; every key of the index is one of the
  input paths; and the entry of a file is the complete map of a processing that did
  not raise, never a part of one.
\<close>

theorem extraction_per_file_atomic:
  "(read_file_ports load f = Inl e \<longrightarrow>
      f \<notin> fst ` set (fst (get_ports_from_docker_compose load files)))
   \<and> fst ` set (fst (get_ports_from_docker_compose load files)) \<subseteq> set files
   \<and> (\<forall>(g, file_ports) \<in> set (fst (get_ports_from_docker_compose load files)).
        read_file_ports load g = Inr file_ports \<and> file_ports \<noteq> [])"
proof -
  have "\<forall>(f, fp) \<in> set ([] :: ports_index).
          f \<in> {} \<and> read_file_ports load f = Inr fp \<and> fp \<noteq> []"
    by simp
  from files_loop_entries [OF this, of files "[]"]
  have inv: "\<forall>(g, fp) \<in> set (fst (get_ports_from_docker_compose load files)).
          g \<in> set files \<and> read_file_ports load g = Inr fp \<and> fp \<noteq> []"
    by (simp add: get_ports_from_docker_compose_def)
  have "read_file_ports load f = Inl e \<longrightarrow>
      f \<notin> fst ` set (fst (get_ports_from_docker_compose load files))"
    using inv by fastforce
  moreover have "fst ` set (fst (get_ports_from_docker_compose load files)) \<subseteq> set files"
    using inv by fastforce
  ultimately show ?thesis
    using inv by blast
qed

theorem extraction_per_file_atomic_witness:
  "read_file_ports
     (\<lambda>f. if f = ''a'' then Inr (YMap [(YStr ''services'',
               YMap [(YStr ''web'', YMap [(YStr ''ports'', YSeq [YStr ''8080:80''])])])])
          else if f = ''b'' then Inr (YMap [(YStr ''services'',
               YMap [(YStr ''web'', YMap [(YStr ''ports'', YSeq [YStr ''8080:80''])]),
                     (YStr ''db'', YMap [(YStr ''ports'', YSeq [YInt 5432])])])])
          else Inl OSError) ''b'' = Inl AttributeError
   \<and> get_ports_from_docker_compose
     (\<lambda>f. if f = ''a'' then Inr (YMap [(YStr ''services'',
               YMap [(YStr ''web'', YMap [(YStr ''ports'', YSeq [YStr ''8080:80''])])])])
          else if f = ''b'' then Inr (YMap [(YStr ''services'',
               YMap [(YStr ''web'', YMap [(YStr ''ports'', YSeq [YStr ''8080:80''])]),
                     (YStr ''db'', YMap [(YStr ''ports'', YSeq [YInt 5432])])])])
          else Inl OSError) [''a'', ''b'', ''c'']
     = ([(''a'', [(YStr ''web'', [''8080''])])], [(''b'', AttributeError), (''c'', OSError)])
   \<and> ''b'' \<notin> fst ` set [(''a'', [(YStr ''web'', [''8080''])])]"
proof -
  let ?load = "\<lambda>f. if f = ''a'' then Inr (YMap [(YStr ''services'',
               YMap [(YStr ''web'', YMap [(YStr ''ports'', YSeq [YStr ''8080:80''])])])])
          else if f = ''b'' then Inr (YMap [(YStr ''services'',
               YMap [(YStr ''web'', YMap [(YStr ''ports'', YSeq [YStr ''8080:80''])]),
                     (YStr ''db'', YMap [(YStr ''ports'', YSeq [YInt 5432])])])])
          else Inl OSError"
  have b: "read_file_ports ?load ''b'' = Inl AttributeError"
    by (simp add: read_file_ports_def py_get_def py_items_def py_in_def py_getitem_def
        py_iter_def host_token_def py_index_def)
  have g: "get_ports_from_docker_compose ?load [''a'', ''b'', ''c'']
     = ([(''a'', [(YStr ''web'', [''8080''])])], [(''b'', AttributeError), (''c'', OSError)])"
    by (simp add: get_ports_from_docker_compose_def read_file_ports_def py_get_def
        py_items_def py_in_def py_getitem_def py_iter_def host_token_def py_index_def)
  have "''b'' \<notin> fst ` set (fst (get_ports_from_docker_compose ?load [''a'', ''b'', ''c'']))"
    using extraction_per_file_atomic [of ?load "''b''" AttributeError "[''a'', ''b'', ''c'']"] b
    by blast
  then show ?thesis
    using b g by simp
qed

section \<open>Properties of the reconciliation\<close>

lemma set_all_running_ports:
  "set (all_running_ports running) = (\<Union>c \<in> set running. set (snd c))"
  by (simp add: all_running_ports_def)

lemma unused_ports_subseq: "subseq (unused_ports running ports) ports"
  by (simp add: unused_ports_def)

lemma unused_lines_iff:
  "(s, u) \<in> set (unused_lines running services) \<longleftrightarrow>
     u \<noteq> [] \<and> (\<exists>ports. (s, ports) \<in> set services \<and> u = unused_ports running ports)"
  by (induction running services rule: unused_lines.induct) (auto simp: Let_def)

lemma unused_section_lookup:
  "(f, services) \<in> set compose_ports \<Longrightarrow>
     (f, unused_lines running services) \<in> set (unused_section compose_ports running)"
  by (force simp: unused_section_def)

text \<open>
  Claim C1. For every file of the index and every service of that file, the unused
  ports are the declared ports without those in the union of the port lists of all
  running containers, in declaration order and with duplicates kept; they form a
  subsequence of the declared ports; and the service has a line in the file's part of
  the report exactly when that subsequence is not empty.
\<close>

theorem unused_ports_difference:
  assumes "(file_path, services) \<in> set compose_ports"
    and "(service, ports) \<in> set services"
  shows "unused_ports running ports =
           filter (\<lambda>p. p \<notin> (\<Union>c \<in> set running. set (snd c))) ports
       \<and> subseq (unused_ports running ports) ports
       \<and> (file_path, unused_lines running services)
            \<in> set (unused_section compose_ports running)
       \<and> (unused_ports running ports \<noteq> [] \<longrightarrow>
            (service, unused_ports running ports) \<in> set (unused_lines running services))
       \<and> (\<forall>s. (s, []) \<notin> set (unused_lines running services))
       \<and> (\<forall>s u. (s, u) \<in> set (unused_lines running services) \<longrightarrow>
            (\<exists>ps. (s, ps) \<in> set services \<and> u = unused_ports running ps))"
proof -
  have "unused_ports running ports =
          filter (\<lambda>p. p \<notin> (\<Union>c \<in> set running. set (snd c))) ports"
    by (simp add: unused_ports_def set_all_running_ports)
  moreover have "(file_path, unused_lines running services)
                   \<in> set (unused_section compose_ports running)"
    using assms(1) by (rule unused_section_lookup)
  moreover have "unused_ports running ports \<noteq> [] \<longrightarrow>
       (service, unused_ports running ports) \<in> set (unused_lines running services)"
    using assms(2) by (auto simp: unused_lines_iff)
  moreover have "\<forall>s. (s, []) \<notin> set (unused_lines running services)"
    by (simp add: unused_lines_iff)
  moreover have "\<forall>s u. (s, u) \<in> set (unused_lines running services) \<longrightarrow>
       (\<exists>ps. (s, ps) \<in> set services \<and> u = unused_ports running ps)"
    by (simp add: unused_lines_iff)
  moreover have "subseq (unused_ports running ports) ports"
    by (rule unused_ports_subseq)
  ultimately show ?thesis
    by (intro conjI)
qed

theorem unused_ports_difference_witness:
  "unused_ports [(''c1'', [''8080''])] [''8080'', ''9090''] = [''9090'']
   \<and> subseq [''9090''] [''8080'', ''9090'']
   \<and> unused_section [(''a/docker-compose.yml'', [(''web'', [''8080'', ''9090''])])]
        [(''c1'', [''8080''])]
       = [(''a/docker-compose.yml'', [(''web'', [''9090''])])]"
proof -
  have u: "unused_ports [(''c1'', [''8080''])] [''8080'', ''9090''] = [''9090'']"
    by (simp add: unused_ports_def all_running_ports_def)
  have "subseq (unused_ports [(''c1'', [''8080''])] [''8080'', ''9090''])
          [''8080'', ''9090'']"
    using unused_ports_difference
      [of "''a/docker-compose.yml''" "[(''web'', [''8080'', ''9090''])]"
          "[(''a/docker-compose.yml'', [(''web'', [''8080'', ''9090''])])]"
          "''web''" "[''8080'', ''9090'']" "[(''c1'', [''8080''])]"]
    by simp
  then show ?thesis
    using u by (simp add: unused_section_def)
qed

text \<open>
  Claim C8. With no running container the subtrahend is empty: the unused ports of
  every service are its declared ports, unchanged, and the report lists every service
  that declares at least one port with its full list.
\<close>

theorem unused_ports_no_running:
  "unused_ports [] ports = ports
   \<and> unused_section compose_ports []
       = map (\<lambda>(file_path, services).
                (file_path, filter (\<lambda>(service, ports). ports \<noteq> []) services))
             compose_ports"
proof -
  have a: "\<And>ps. unused_ports [] ps = ps"
    by (simp add: unused_ports_def all_running_ports_def)
  have b: "\<And>services. unused_lines [] services
             = filter (\<lambda>(service, ports). ports \<noteq> []) services"
  proof -
    fix services :: "'s service_ports"
    show "unused_lines [] services = filter (\<lambda>(service, ports). ports \<noteq> []) services"
      by (induction services) (auto simp: a)
  qed
  show ?thesis
    by (simp add: a b unused_section_def)
qed

section \<open>Properties of the interactive loop\<close>

lemma prompt_starts_with_listing:
  "\<exists>evs. fst (prompt_user_action run files w inputs)
     = Listing files # Ask Choice_prompt # evs"
proof (cases inputs)
  case Nil
  then show ?thesis by simp
next
  case (Cons line rest)
  have a: "\<exists>evs. fst (after (Listing files # Ask Choice_prompt # pre) res)
            = Listing files # Ask Choice_prompt # evs"
    for pre and res :: "event list \<times> py_error option \<times> 'a"
    by (cases res) (simp add: after_def)
  show ?thesis
    unfolding Cons prompt_user_action.simps Let_def
    using a by (auto split: list.splits sum.splits prod.splits option.splits)
qed

lemma for_each_file_after_failure:
  assumes "run w [''docker-compose'', ''-f'', file_path, action] = (Exit status, w')"
    and "status \<noteq> 0"
  shows "for_each_file run w action (file_path # rest)
           = after [Failed file_path action] (for_each_file run w' action rest)"
  using assms
  by (cases "for_each_file run w' action rest")
     (simp add: execute_docker_compose_command_def after_def)

lemma invalid_choice_reprompts:
  assumes "py_strip line \<notin> {''0'', ''''}"
    and "py_lower (py_strip line) \<noteq> ''a''"
    and "py_int (py_strip line) = Inl e
         \<or> (\<exists>n. py_int (py_strip line) = Inr n
               \<and> (int (length files) < n \<or> n \<le> - int (length files)))"
  shows "prompt_user_action run files w (line # rest)
           = after [Listing files, Ask Choice_prompt, Invalid_choice]
               (prompt_user_action run files w rest)"
  using assms by (auto simp: Let_def py_index_def)

lemmas eval_defs = Let_def py_strip_def py_lower_def lower_char_def is_space_def
  py_int_def is_digit_def digit_value_def py_index_def actions_def after_def
  execute_docker_compose_command_def example_runner_def

text \<open>
  Claim C4, as stated, fails. With one file, the operator selects \<open>1\<close>, types the
  invalid action \<open>bogus\<close> and then \<open>start\<close>. Were the selection kept and only the action
  asked again, \<open>start\<close> would run on the file. The loop reads \<open>start\<close> at the selection
  prompt instead, rejects it as a selection, and runs nothing.
\<close>

theorem invalid_action_keeps_selection_counterexample:
  "prompt_user_action (example_runner []) [''f''] () [''1'', ''bogus'', ''start'']
     = ([Listing [''f''], Ask Choice_prompt, Ask Action_prompt, Invalid_action,
         Listing [''f''], Ask Choice_prompt, Invalid_choice,
         Listing [''f''], Ask Choice_prompt],
        Some EOFError, ())"
  by (simp add: eval_defs)

text \<open>
  Claim C4, amended. After a valid selection (bulk, or the number of a file), an
  action that is not start, stop or restart runs no command and prints the message
  for an invalid action; the loop then starts over with the list of files and the
  selection prompt, and reads the next line as a selection. The selection made before
  is not kept.
\<close>

theorem invalid_action_returns_to_selection:
  assumes "py_lower (py_strip line2) \<notin> set actions"
    and "py_strip line \<notin> {''0'', ''''}"
    and "py_lower (py_strip line) = ''a''
         \<or> (\<exists>n file_path. py_int (py_strip line) = Inr n
               \<and> py_index files (n - 1) = Inr file_path)"
  shows "prompt_user_action run files w (line # line2 # rest)
           = after [Listing files, Ask Choice_prompt,
                    Ask (if py_lower (py_strip line) = ''a''
                         then Bulk_action_prompt else Action_prompt),
                    Invalid_action]
               (prompt_user_action run files w rest)
         \<and> (\<exists>evs. fst (prompt_user_action run files w rest)
               = Listing files # Ask Choice_prompt # evs)"
proof
  show "prompt_user_action run files w (line # line2 # rest)
           = after [Listing files, Ask Choice_prompt,
                    Ask (if py_lower (py_strip line) = ''a''
                         then Bulk_action_prompt else Action_prompt),
                    Invalid_action]
               (prompt_user_action run files w rest)"
  proof (cases "py_lower (py_strip line) = ''a''")
    case True
    then show ?thesis
      using assms(1,2) by (simp add: Let_def)
  next
    case False
    with assms(3) obtain n file_path where
      "py_int (py_strip line) = Inr n" "py_index files (n - 1) = Inr file_path"
      by blast
    then show ?thesis
      using False assms(1,2) by (simp add: Let_def)
  qed
next
  show "\<exists>evs. fst (prompt_user_action run files w rest)
               = Listing files # Ask Choice_prompt # evs"
    by (rule prompt_starts_with_listing)
qed

theorem invalid_action_returns_to_selection_witness:
  "prompt_user_action (example_runner []) [''f''] () [''1'', ''bogus'', ''start'']
     = after [Listing [''f''], Ask Choice_prompt, Ask Action_prompt, Invalid_action]
         (prompt_user_action (example_runner []) [''f''] () [''start''])"
proof -
  have a: "py_lower (py_strip ''bogus'') \<notin> set actions"
    by (simp add: eval_defs)
  have b: "py_strip ''1'' \<notin> {''0'', ''''}"
    by (simp add: eval_defs)
  have c: "py_int (py_strip ''1'') = Inr 1 \<and> py_index [''f''] (1 - 1) = Inr ''f''"
    by (simp add: eval_defs)
  have d: "py_lower (py_strip ''1'') \<noteq> ''a''"
    by (simp add: eval_defs)
  from c have "py_lower (py_strip ''1'') = ''a''
         \<or> (\<exists>n file_path. py_int (py_strip ''1'') = Inr n
               \<and> py_index [''f''] (n - 1) = Inr file_path)"
    by blast
  from invalid_action_returns_to_selection [OF a b this, of "example_runner []" "()" "[''start'']"]
  show ?thesis
    using d by simp
qed

text \<open>
  Claim C5. A selection that does not parse as an integer, or whose value is above the
  number of files or at most its negation, is answered by the message for an invalid
  choice and the selection prompt (\<open>invalid_choice_reprompts\<close>). The values from
  \<open>1 - length files\<close> to \<open>0\<close> are not valid 1-based indices either, but
  \<^verbatim>\<open>docker_compose_files[choice - 1]\<close> then has a negative index, which counts from the
  end of the list and raises no \<^verbatim>\<open>IndexError\<close>: with two files, \<open>-1\<close> selects the
  first and \<open>00\<close> the second, and the command runs.
\<close>

theorem negative_choice_selects_file:
  "py_int ''-1'' = Inr (- 1)
   \<and> py_int ''00'' = Inr 0
   \<and> prompt_user_action (example_runner []) [''a'', ''b''] () [''-1'', ''stop'']
       = ([Listing [''a'', ''b''], Ask Choice_prompt, Ask Action_prompt,
           Completed ''a'' ''stop'', Listing [''a'', ''b''], Ask Choice_prompt],
          Some EOFError, ())
   \<and> prompt_user_action (example_runner []) [''a'', ''b''] () [''00'', ''stop'']
       = ([Listing [''a'', ''b''], Ask Choice_prompt, Ask Action_prompt,
           Completed ''b'' ''stop'', Listing [''a'', ''b''], Ask Choice_prompt],
          Some EOFError, ())"
  by (simp add: eval_defs)

lemma for_each_file_after_success:
  assumes "run w [''docker-compose'', ''-f'', file_path, action] = (Exit 0, v)"
  shows "for_each_file run w action (file_path # rest)
           = after [Completed file_path action] (for_each_file run v action rest)"
  using assms
  by (cases "for_each_file run v action rest")
     (simp add: execute_docker_compose_command_def after_def)

lemma for_each_file_launch_failure:
  assumes "run w [''docker-compose'', ''-f'', file_path, action] = (Launch_failed, v)"
  shows "for_each_file run w action (file_path # rest) = ([], Some OSError, v)"
  using assms by (simp add: execute_docker_compose_command_def)

lemma for_each_file_step:
  assumes "run w [''docker-compose'', ''-f'', file_path, action] = (Exit status, v)"
  shows "for_each_file run w action (file_path # rest)
           = after (report file_path action (Exit status)) (for_each_file run v action rest)"
  using assms
  by (cases "for_each_file run v action rest")
     (simp add: execute_docker_compose_command_def after_def)

lemma for_each_file_all_started:
  assumes "Launch_failed \<notin> fst ` set (launches run w action files)"
  shows "for_each_file run w action files
           = (concat (map2 (\<lambda>file_path r. report file_path action r) files
                        (map fst (launches run w action files))),
              None, last (w # map snd (launches run w action files)))"
  using assms
proof (induction files arbitrary: w)
  case Nil
  then show ?case by simp
next
  case (Cons file_path rest)
  obtain r v where rv: "run w [''docker-compose'', ''-f'', file_path, action] = (r, v)"
    by (cases "run w [''docker-compose'', ''-f'', file_path, action]")
  with Cons.prems have "r \<noteq> Launch_failed"
    and t: "Launch_failed \<notin> fst ` set (launches run v action rest)"
    by auto
  then obtain status where s: "r = Exit status" by (cases r) auto
  from for_each_file_step [of run w file_path action status v rest] rv s
  have "for_each_file run w action (file_path # rest)
      = after (report file_path action (Exit status)) (for_each_file run v action rest)"
    by simp
  also have "for_each_file run v action rest
      = (concat (map2 (\<lambda>file_path r. report file_path action r) rest
                        (map fst (launches run v action rest))),
              None, last (v # map snd (launches run v action rest)))"
    using Cons.IH [OF t] .
  finally show ?case
    using rv s by (simp add: after_def)
qed

lemma reports_attempts:
  assumes "Launch_failed \<notin> set rs" and "length rs = length files"
  shows "map attempt_of (concat (map2 (\<lambda>file_path r. report file_path action r) files rs))
           = map (\<lambda>file_path. Some (file_path, action)) files"
  using assms
proof (induction files arbitrary: rs)
  case Nil
  then show ?case by simp
next
  case (Cons file_path rest)
  then obtain r rs' where rs: "rs = r # rs'" by (cases rs) auto
  with Cons.prems obtain status where "r = Exit status" by (cases r) auto
  with rs Cons show ?case by simp
qed

lemma length_launches: "length (launches run w action files) = length files"
  by (induction files arbitrary: w) (auto split: prod.splits)

text \<open>
  Claim C9, as stated, fails. \<^verbatim>\<open>execute_docker_compose_command\<close> catches
  \<^verbatim>\<open>CalledProcessError\<close> only. With three files, the first command completes and the
  second cannot be started: the \<^verbatim>\<open>OSError\<close> leaves the loop and the function, the
  second file gets no report and the third is never attempted (two commands were run,
  not three).
\<close>

theorem bulk_failure_not_reported_counterexample:
  "counting_runner [] [1] 1 [''docker-compose'', ''-f'', ''b'', ''restart'']
     = (Launch_failed, 2)
   \<and> for_each_file (counting_runner [] [1]) 0 ''restart'' [''a'', ''b'', ''c'']
       = ([Completed ''a'' ''restart''], Some OSError, 2)
   \<and> prompt_user_action (counting_runner [] [1]) [''a'', ''b'', ''c''] 0
         [''a'', ''restart'', ''0'']
       = ([Listing [''a'', ''b'', ''c''], Ask Choice_prompt, Ask Bulk_action_prompt,
           Completed ''a'' ''restart''],
          Some OSError, 2)"
  by (simp add: eval_defs counting_runner_def)

text \<open>
  Claim C9, amended. In bulk mode the action is run for the discovered files one after
  the other in discovery order, each command in the state the one before left. A
  command that exits with status 0 is reported as completed, one that exits with
  another status as failed, and in both cases the loop goes on with the remaining
  files: when every command can be started, every file is attempted and reported
  once, in order, and the prompt loop continues in the state the last command left. A
  command that cannot be started is not reported: the exception ends the loop over
  the files and \<open>prompt_user_action\<close>, and the remaining files are not attempted.
\<close>

theorem bulk_attempts_every_file:
  "(Launch_failed \<notin> fst ` set (launches run w action files) \<longrightarrow>
      for_each_file run w action files
        = (concat (map2 (\<lambda>file_path r. report file_path action r) files
                     (map fst (launches run w action files))),
           None, last (w # map snd (launches run w action files)))
      \<and> map attempt_of (fst (for_each_file run w action files))
          = map (\<lambda>file_path. Some (file_path, action)) files)
   \<and> (run w [''docker-compose'', ''-f'', file_path, action] = (Exit 0, v) \<longrightarrow>
        for_each_file run w action (file_path # others)
          = after [Completed file_path action] (for_each_file run v action others))
   \<and> (run w [''docker-compose'', ''-f'', file_path, action] = (Exit status, v)
        \<and> status \<noteq> 0 \<longrightarrow>
        for_each_file run w action (file_path # others)
          = after [Failed file_path action] (for_each_file run v action others))
   \<and> (run w [''docker-compose'', ''-f'', file_path, action] = (Launch_failed, v) \<longrightarrow>
        for_each_file run w action (file_path # others) = ([], Some OSError, v))
   \<and> (py_strip line \<notin> {''0'', ''''} \<and> py_lower (py_strip line) = ''a''
        \<and> py_lower (py_strip answer) = action \<and> action \<in> set actions \<longrightarrow>
        prompt_user_action run files w (line # answer # rest)
          = (case for_each_file run w action files of
               (evs, None, w') \<Rightarrow>
                 after ([Listing files, Ask Choice_prompt, Ask Bulk_action_prompt] @ evs)
                   (prompt_user_action run files w' rest)
             | (evs, Some e, w') \<Rightarrow>
                 ([Listing files, Ask Choice_prompt, Ask Bulk_action_prompt] @ evs,
                  Some e, w')))"
proof (intro conjI impI)
  assume a: "Launch_failed \<notin> fst ` set (launches run w action files)"
  then show all: "for_each_file run w action files
        = (concat (map2 (\<lambda>file_path r. report file_path action r) files
                     (map fst (launches run w action files))),
           None, last (w # map snd (launches run w action files)))"
    by (rule for_each_file_all_started)
  from a have "Launch_failed \<notin> set (map fst (launches run w action files))"
    by simp
  from reports_attempts [OF this, of files action]
  show "map attempt_of (fst (for_each_file run w action files))
          = map (\<lambda>file_path. Some (file_path, action)) files"
    unfolding all by (simp add: length_launches)
next
  assume "run w [''docker-compose'', ''-f'', file_path, action] = (Exit 0, v)"
  then show "for_each_file run w action (file_path # others)
          = after [Completed file_path action] (for_each_file run v action others)"
    by (rule for_each_file_after_success)
next
  assume "run w [''docker-compose'', ''-f'', file_path, action] = (Exit status, v)
        \<and> status \<noteq> 0"
  then have "run w [''docker-compose'', ''-f'', file_path, action] = (Exit status, v)"
    and "status \<noteq> 0"
    by simp_all
  then show "for_each_file run w action (file_path # others)
          = after [Failed file_path action] (for_each_file run v action others)"
    by (rule for_each_file_after_failure)
next
  assume "run w [''docker-compose'', ''-f'', file_path, action] = (Launch_failed, v)"
  then show "for_each_file run w action (file_path # others) = ([], Some OSError, v)"
    by (rule for_each_file_launch_failure)
next
  assume "py_strip line \<notin> {''0'', ''''} \<and> py_lower (py_strip line) = ''a''
        \<and> py_lower (py_strip answer) = action \<and> action \<in> set actions"
  then show "prompt_user_action run files w (line # answer # rest)
          = (case for_each_file run w action files of
               (evs, None, w') \<Rightarrow>
                 after ([Listing files, Ask Choice_prompt, Ask Bulk_action_prompt] @ evs)
                   (prompt_user_action run files w' rest)
             | (evs, Some e, w') \<Rightarrow>
                 ([Listing files, Ask Choice_prompt, Ask Bulk_action_prompt] @ evs,
                  Some e, w'))"
    by (auto simp: Let_def split: prod.splits option.splits)
qed

theorem bulk_attempts_every_file_witness:
  "for_each_file (counting_runner [''b''] []) 0 ''restart'' [''a'', ''b'', ''c'']
     = ([Completed ''a'' ''restart'', Failed ''b'' ''restart'', Completed ''c'' ''restart''],
        None, 3)
   \<and> map attempt_of
         (fst (for_each_file (counting_runner [''b''] []) 0 ''restart'' [''a'', ''b'', ''c'']))
       = [Some (''a'', ''restart''), Some (''b'', ''restart''), Some (''c'', ''restart'')]
   \<and> for_each_file (counting_runner [''b''] []) 0 ''restart'' [''a'', ''b'', ''c'']
       = after [Completed ''a'' ''restart'']
           (for_each_file (counting_runner [''b''] []) 1 ''restart'' [''b'', ''c''])
   \<and> for_each_file (counting_runner [''b''] []) 1 ''restart'' [''b'', ''c'']
       = after [Failed ''b'' ''restart'']
           (for_each_file (counting_runner [''b''] []) 2 ''restart'' [''c''])
   \<and> for_each_file (counting_runner [] [1]) 1 ''restart'' [''b'', ''c'']
       = ([], Some OSError, 2)
   \<and> prompt_user_action (counting_runner [''b''] []) [''a'', ''b'', ''c''] 0
         ['' A '', ''ReStart'', ''0'']
       = ([Listing [''a'', ''b'', ''c''], Ask Choice_prompt, Ask Bulk_action_prompt,
           Completed ''a'' ''restart'', Failed ''b'' ''restart'', Completed ''c'' ''restart'',
           Listing [''a'', ''b'', ''c''], Ask Choice_prompt],
          None, 3)"
proof -
  let ?run = "counting_runner [''b''] []"
  let ?files = "[''a'', ''b'', ''c'']"
  have l: "launches ?run 0 ''restart'' ?files = [(Exit 0, 1), (Exit 1, 2), (Exit 0, 3)]"
    by (simp add: counting_runner_def)
  have h: "Launch_failed \<notin> fst ` set (launches ?run 0 ''restart'' ?files)"
    unfolding l by simp
  have ra: "?run 0 [''docker-compose'', ''-f'', ''a'', ''restart''] = (Exit 0, 1)"
    by (simp add: counting_runner_def)
  have rb: "?run 1 [''docker-compose'', ''-f'', ''b'', ''restart''] = (Exit 1, 2)"
    by (simp add: counting_runner_def)
  have rl: "counting_runner [] [1] 1 [''docker-compose'', ''-f'', ''b'', ''restart'']
      = (Launch_failed, 2)"
    by (simp add: counting_runner_def)
  have a: "py_strip '' A '' \<notin> {''0'', ''''}"
    by (simp add: eval_defs)
  have b: "py_lower (py_strip '' A '') = ''a''"
    by (simp add: eval_defs)
  have c: "py_lower (py_strip ''ReStart'') = ''restart''"
    by (simp add: eval_defs)
  have d: "''restart'' \<in> set actions"
    by (simp add: actions_def)
  have q: "prompt_user_action ?run ?files 3 [''0'']
      = ([Listing ?files, Ask Choice_prompt], None, 3)"
    by (simp add: eval_defs)
  note first = bulk_attempts_every_file
    [where run = ?run and w = 0 and action = "''restart''" and files = ?files
       and file_path = "''a''" and v = 1 and others = "[''b'', ''c'']"
       and line = "'' A ''" and answer = "''ReStart''" and rest = "[''0'']"]
  note second = bulk_attempts_every_file
    [where run = ?run and w = 1 and action = "''restart''" and file_path = "''b''"
       and status = 1 and v = 2 and others = "[''c'']"]
  note third = bulk_attempts_every_file
    [where run = "counting_runner [] [1]" and w = 1 and action = "''restart''"
       and file_path = "''b''" and v = 2 and others = "[''c'']"]
  have one: "(1::int) \<noteq> 0"
    by simp
  note started = first [THEN conjunct1, THEN mp, OF h]
  have all: "for_each_file ?run 0 ''restart'' ?files
      = ([Completed ''a'' ''restart'', Failed ''b'' ''restart'', Completed ''c'' ''restart''],
         None, 3)"
    unfolding started [THEN conjunct1] l by simp
  from started [THEN conjunct2]
  have att: "map attempt_of (fst (for_each_file ?run 0 ''restart'' ?files))
      = [Some (''a'', ''restart''), Some (''b'', ''restart''), Some (''c'', ''restart'')]"
    by (simp only: list.map)
  from first [THEN conjunct2, THEN conjunct1, THEN mp, OF ra]
  have s1: "for_each_file ?run 0 ''restart'' ?files
      = after [Completed ''a'' ''restart''] (for_each_file ?run 1 ''restart'' [''b'', ''c''])" .
  from second [THEN conjunct2, THEN conjunct2, THEN conjunct1, THEN mp, OF conjI [OF rb one]]
  have s2: "for_each_file ?run 1 ''restart'' [''b'', ''c'']
      = after [Failed ''b'' ''restart''] (for_each_file ?run 2 ''restart'' [''c''])" .
  from third [THEN conjunct2, THEN conjunct2, THEN conjunct2, THEN conjunct1, THEN mp, OF rl]
  have s3: "for_each_file (counting_runner [] [1]) 1 ''restart'' [''b'', ''c'']
      = ([], Some OSError, 2)" .
  have mode: "py_strip '' A '' \<notin> {''0'', ''''} \<and> py_lower (py_strip '' A '') = ''a''
        \<and> py_lower (py_strip ''ReStart'') = ''restart'' \<and> ''restart'' \<in> set actions"
    using a b c d by (intro conjI)
  from first [THEN conjunct2, THEN conjunct2, THEN conjunct2, THEN conjunct2, THEN mp, OF mode]
  have "prompt_user_action ?run ?files 0 ['' A '', ''ReStart'', ''0'']
      = (case for_each_file ?run 0 ''restart'' ?files of
           (evs, None, w') \<Rightarrow>
             after ([Listing ?files, Ask Choice_prompt, Ask Bulk_action_prompt] @ evs)
               (prompt_user_action ?run ?files w' [''0''])
         | (evs, Some e, w') \<Rightarrow>
             ([Listing ?files, Ask Choice_prompt, Ask Bulk_action_prompt] @ evs, Some e, w'))" .
  note pr = this
  have p: "prompt_user_action ?run ?files 0 ['' A '', ''ReStart'', ''0'']
       = ([Listing ?files, Ask Choice_prompt, Ask Bulk_action_prompt,
           Completed ''a'' ''restart'', Failed ''b'' ''restart'', Completed ''c'' ''restart'',
           Listing ?files, Ask Choice_prompt],
          None, 3)"
    unfolding pr all
    by (simp only: q after_def prod.case option.case append.simps)
  from all att s1 s2 s3 p show ?thesis
    by (intro conjI)
qed

end
